theory Spec2Isabelle
  imports Complex_Main "HOL-Library.AList" "HOL-Library.Log_Nat"
begin

section \<open>Ingestion: \<^verbatim>\<open>data_ingestion/kafka_consumer.py\<close>\<close>

subsection \<open>Decoded payloads\<close>

text \<open>
  The value \<^verbatim>\<open>json.loads\<close> returns. An object is the list of its members in document
  order; \<^verbatim>\<open>json.loads\<close> keeps the last of several members with one name. A float is
  the rational it denotes (NaN and the infinities are left out).
\<close>

datatype json =
    JNull
  | JBool bool
  | JInt int
  | JFloat rat
  | JStr string
  | JArr "json list"
  | JObj "(string \<times> json) list"

text \<open>\<^verbatim>\<open>data.get(name)\<close> on a decoded object: \<open>None\<close> when the member is missing.\<close>

definition dict_get :: "(string \<times> json) list \<Rightarrow> string \<Rightarrow> json option" where
  "dict_get kvs name = map_of (rev kvs) name"

text \<open>Python's truth value of a decoded value, as \<^verbatim>\<open>if equipment_id:\<close> tests it.\<close>

fun truthy :: "json \<Rightarrow> bool" where
  "truthy JNull = False"
| "truthy (JBool b) = b"
| "truthy (JInt i) = (i \<noteq> 0)"
| "truthy (JFloat r) = (r \<noteq> 0)"
| "truthy (JStr s) = (s \<noteq> [])"
| "truthy (JArr xs) = (xs \<noteq> [])"
| "truthy (JObj kvs) = (kvs \<noteq> [])"

text \<open>
  The keys of \<^verbatim>\<open>self.data_buffer\<close>. Python compares dictionary keys with \<^verbatim>\<open>==\<close>, under
  which \<^verbatim>\<open>True\<close>, \<^verbatim>\<open>1\<close> and \<^verbatim>\<open>1.0\<close> are one key; a list or a dict is unhashable and
  the membership test raises \<^verbatim>\<open>TypeError\<close>.
\<close>

datatype key = KStr string | KNum rat | KNone

fun hash_key :: "json \<Rightarrow> key option" where
  "hash_key JNull = Some KNone"
| "hash_key (JBool b) = Some (KNum (if b then 1 else 0))"
| "hash_key (JInt i) = Some (KNum (of_int i))"
| "hash_key (JFloat r) = Some (KNum r)"
| "hash_key (JStr s) = Some (KStr s)"
| "hash_key (JArr xs) = None"
| "hash_key (JObj kvs) = None"

subsection \<open>State, exceptions and the outside world\<close>

datatype exn = DecodeError | AttributeError | TypeError | KeyError | OSError

text \<open>A call either returns or raises; the state reached is kept in both cases.\<close>

datatype 'a outcome = Returned 'a | Raised exn 'a

fun state_of :: "'a outcome \<Rightarrow> 'a" where
  "state_of (Returned s) = s"
| "state_of (Raised e s) = s"

text \<open>The call site of \<^verbatim>\<open>_save_buffer\<close>: line 75 (buffer full) or line 103 (shutdown).\<close>

datatype trigger = SizeTriggered | ShutdownFlush

text \<open>The lines the consumer prints.\<close>

datatype log_line =
    ReachedEndOfPartition
  | PollError
  | ProcessedMessage json json
  | ErrorProcessingMessage exn
  | SavedRecords nat key
  | StoppedByUser

text \<open>
  One call of \<^verbatim>\<open>df.to_csv(filepath)\<close>: the equipment key, the rows in order, whether the
  write succeeded, and the call site.
\<close>

record csv_call =
  csv_key :: key
  csv_rows :: "json list"
  csv_ok :: bool
  csv_trigger :: trigger

record consumer =
  data_buffer :: "(key \<times> json list) list"
  buffer_size :: nat
  running :: bool
  closed :: bool
  to_csv_calls :: "csv_call list"
  stdout :: "log_line list"

text \<open>
  \<^verbatim>\<open>__init__\<close>: an empty dictionary and a capacity of 100. The dictionary is an association
  list in insertion order, which is the order Python iterates it in.
\<close>

definition init :: consumer where
  "init = \<lparr>data_buffer = [], buffer_size = 100, running = False, closed = False,
            to_csv_calls = [], stdout = []\<rparr>"

text \<open>
  The file system is a parameter: \<open>disk n\<close> tells whether the \<open>n\<close>-th call of \<^verbatim>\<open>to_csv\<close>
  (counted from 0) succeeds; otherwise it raises \<^verbatim>\<open>OSError\<close>.
\<close>

type_synonym disk = "nat \<Rightarrow> bool"

definition print :: "log_line \<Rightarrow> consumer \<Rightarrow> consumer" where
  "print l s = s\<lparr>stdout := stdout s @ [l]\<rparr>"

text \<open>\<^verbatim>\<open>self.data_buffer[equipment_id]\<close>, which raises \<^verbatim>\<open>KeyError\<close> on a missing key.\<close>

definition getitem :: "consumer \<Rightarrow> key \<Rightarrow> json list option" where
  "getitem s k = map_of (data_buffer s) k"

text \<open>\<^verbatim>\<open>self.data_buffer[equipment_id] = rows\<close>\<close>

definition setitem :: "key \<Rightarrow> json list \<Rightarrow> consumer \<Rightarrow> consumer" where
  "setitem k rows s = s\<lparr>data_buffer := AList.update k rows (data_buffer s)\<rparr>"

subsection \<open>\<^verbatim>\<open>_save_buffer\<close>\<close>

definition save_buffer :: "disk \<Rightarrow> trigger \<Rightarrow> key \<Rightarrow> consumer \<Rightarrow> consumer outcome" where
  "save_buffer disk t k s =
     (case getitem s k of
        None \<Rightarrow> Returned s
      | Some rows \<Rightarrow>
          if rows = [] then Returned s
          else
            let ok = disk (length (to_csv_calls s));
                s1 = s\<lparr>to_csv_calls := to_csv_calls s @
                        [\<lparr>csv_key = k, csv_rows = rows, csv_ok = ok, csv_trigger = t\<rparr>]\<rparr>
            in if \<not> ok then Raised OSError s1
               else Returned (setitem k [] (print (SavedRecords (length rows) k) s1)))"

subsection \<open>\<^verbatim>\<open>_save_all_buffers\<close>\<close>

fun save_keys :: "disk \<Rightarrow> key list \<Rightarrow> consumer \<Rightarrow> consumer outcome" where
  "save_keys disk [] s = Returned s"
| "save_keys disk (k # ks) s =
     (case save_buffer disk ShutdownFlush k s of
        Returned s' \<Rightarrow> save_keys disk ks s'
      | Raised e s' \<Rightarrow> Raised e s')"

definition save_all_buffers :: "disk \<Rightarrow> consumer \<Rightarrow> consumer outcome" where
  "save_all_buffers disk s = save_keys disk (map fst (data_buffer s)) s"

subsection \<open>\<^verbatim>\<open>_process_message\<close>\<close>

text \<open>
  A message is what \<^verbatim>\<open>json.loads(msg.value().decode('utf-8'))\<close> makes of it: \<open>None\<close> when
  the value is missing, is not UTF-8 or is not JSON (each raises), the decoded value
  otherwise.
\<close>

type_synonym payload = "json option"

text \<open>The body of the \<^verbatim>\<open>try\<close> block, lines 59 to 77.\<close>

definition process_body :: "disk \<Rightarrow> payload \<Rightarrow> consumer \<Rightarrow> consumer outcome" where
  "process_body disk p s =
     (case p of
        None \<Rightarrow> Raised DecodeError s
      | Some data \<Rightarrow>
          (case data of
             JObj kvs \<Rightarrow>
               (case dict_get kvs ''equipment_id'' of
                  None \<Rightarrow> Returned s
                | Some equipment_id \<Rightarrow>
                    if \<not> truthy equipment_id then Returned s
                    else
                      (case hash_key equipment_id of
                         None \<Rightarrow> Raised TypeError s
                       | Some k \<Rightarrow>
                           let s1 = (if getitem s k = None then setitem k [] s else s)
                           in (case getitem s1 k of
                                 None \<Rightarrow> Raised KeyError s1
                               | Some rows \<Rightarrow>
                                   let s2 = setitem k (rows @ [data]) s1
                                   in (case getitem s2 k of
                                         None \<Rightarrow> Raised KeyError s2
                                       | Some rows' \<Rightarrow>
                                           if length rows' \<ge> buffer_size s2
                                           then
                                             (case save_buffer disk SizeTriggered k s2 of
                                                Raised e s3 \<Rightarrow> Raised e s3
                                              | Returned s3 \<Rightarrow>
                                                  Returned (print (ProcessedMessage equipment_id data) s3))
                                           else Returned (print (ProcessedMessage equipment_id data) s2)))))
           | _ \<Rightarrow> Raised AttributeError s))"

text \<open>The \<^verbatim>\<open>except Exception\<close> clause prints the error and returns.\<close>

definition process_message :: "disk \<Rightarrow> payload \<Rightarrow> consumer \<Rightarrow> consumer outcome" where
  "process_message disk p s =
     (case process_body disk p s of
        Returned s' \<Rightarrow> Returned s'
      | Raised e s' \<Rightarrow> Returned (print (ErrorProcessingMessage e) s'))"

subsection \<open>\<^verbatim>\<open>start_consuming\<close>\<close>

text \<open>
  What one \<^verbatim>\<open>poll\<close> gives: nothing, an error (\<open>True\<close> for end of partition), or a
  message.
\<close>

datatype poll_result = NoMessage | MsgError bool | Message payload

text \<open>
  \<^verbatim>\<open>KeyboardInterrupt\<close> is not an \<^verbatim>\<open>Exception\<close>: the clause at line 79 lets it through, and it
  can be raised between any two statements of the \<^verbatim>\<open>try\<close> block of \<^verbatim>\<open>start_consuming\<close>.
  While a message is being processed, the places that differ in the state they leave are:
  after line 69 and before the append, after the append at line 71, after the write at line
  94, after the print at line 95, after the clear at line 98 and before the print at line
  77, and inside the \<^verbatim>\<open>except\<close> clause before its print at line 80. (Before line 69, and
  after line 77, the state is that between two messages.) A Ctrl-C in \<^verbatim>\<open>poll\<close> or in the
  branch for \<^verbatim>\<open>msg.error()\<close> leaves the buffers and the files as they are between two
  polls. A single call of \<^verbatim>\<open>to_csv\<close> is taken as one step. A run has at most one Ctrl-C:
  a second one, arriving in the \<^verbatim>\<open>finally\<close> clause, would make \<^verbatim>\<open>start_consuming\<close> raise
  with the flush-all unfinished.
\<close>

datatype interrupt_point =
    AfterCreate
  | AfterAppend
  | AfterToCsv
  | AfterSavedPrint
  | AfterClear
  | BeforeErrorPrint

text \<open>
  What ends the loop: \<^verbatim>\<open>stop_consuming\<close> clearing \<^verbatim>\<open>self.running\<close>, a Ctrl-C between two
  messages, or a Ctrl-C at a place inside the processing of one more message.
\<close>

datatype stop = KeyboardInterrupt | StopRequested | KeyboardInterruptAt interrupt_point payload

fun poll_loop :: "disk \<Rightarrow> poll_result list \<Rightarrow> consumer \<Rightarrow> consumer outcome" where
  "poll_loop disk [] s = Returned s"
| "poll_loop disk (NoMessage # ps) s = poll_loop disk ps s"
| "poll_loop disk (MsgError eof # ps) s =
     poll_loop disk ps (print (if eof then ReachedEndOfPartition else PollError) s)"
| "poll_loop disk (Message p # ps) s =
     (case process_message disk p s of
        Returned s' \<Rightarrow> poll_loop disk ps s'
      | Raised e s' \<Rightarrow> Raised e s')"

text \<open>The \<^verbatim>\<open>finally\<close> clause: flush everything, close the consumer, clear the flag.\<close>

definition finally_clause :: "disk \<Rightarrow> consumer \<Rightarrow> consumer outcome" where
  "finally_clause disk s =
     (case save_all_buffers disk s of
        Raised e s' \<Rightarrow> Raised e s'
      | Returned s' \<Rightarrow> Returned (s'\<lparr>closed := True, running := False\<rparr>))"

text \<open>
  The state in which \<^verbatim>\<open>_save_buffer\<close>, lines 84 to 98, is left by a Ctrl-C at the given
  place; \<open>None\<close> when the call does not come past that place.
\<close>

definition save_buffer_interrupted ::
  "disk \<Rightarrow> trigger \<Rightarrow> interrupt_point \<Rightarrow> key \<Rightarrow> consumer \<Rightarrow> consumer option" where
  "save_buffer_interrupted disk t pt k s =
     (case getitem s k of
        None \<Rightarrow> None
      | Some rows \<Rightarrow>
          if rows = [] then None
          else
            let ok = disk (length (to_csv_calls s));
                s1 = s\<lparr>to_csv_calls := to_csv_calls s @
                        [\<lparr>csv_key = k, csv_rows = rows, csv_ok = ok, csv_trigger = t\<rparr>]\<rparr>;
                s2 = print (SavedRecords (length rows) k) s1
            in if \<not> ok then None
               else if pt = AfterToCsv then Some s1
               else if pt = AfterSavedPrint then Some s2
               else if pt = AfterClear then Some (setitem k [] s2)
               else None)"

text \<open>The same for \<^verbatim>\<open>_process_message\<close>, lines 59 to 80.\<close>

definition interrupted_at ::
  "disk \<Rightarrow> interrupt_point \<Rightarrow> payload \<Rightarrow> consumer \<Rightarrow> consumer option" where
  "interrupted_at disk pt p s =
     (if pt = BeforeErrorPrint
      then (case process_body disk p s of Raised e s' \<Rightarrow> Some s' | Returned s' \<Rightarrow> None)
      else
        (case p of
           None \<Rightarrow> None
         | Some data \<Rightarrow>
             (case data of
                JObj kvs \<Rightarrow>
                  (case dict_get kvs ''equipment_id'' of
                     None \<Rightarrow> None
                   | Some equipment_id \<Rightarrow>
                       if \<not> truthy equipment_id then None
                       else
                         (case hash_key equipment_id of
                            None \<Rightarrow> None
                          | Some k \<Rightarrow>
                              let s1 = (if getitem s k = None then setitem k [] s else s)
                              in if pt = AfterCreate then Some s1
                                 else
                                   (case getitem s1 k of
                                      None \<Rightarrow> None
                                    | Some rows \<Rightarrow>
                                        let s2 = setitem k (rows @ [data]) s1
                                        in if pt = AfterAppend then Some s2
                                           else
                                             (case getitem s2 k of
                                                None \<Rightarrow> None
                                              | Some rows' \<Rightarrow>
                                                  if length rows' \<ge> buffer_size s2
                                                  then save_buffer_interrupted disk SizeTriggered pt k s2
                                                  else None))))
              | _ \<Rightarrow> None)))"

text \<open>
  The state in which the loop is left. A Ctrl-C aimed at a place the message does not come
  past arrives once the message has been processed.
\<close>

definition loop_left :: "disk \<Rightarrow> stop \<Rightarrow> consumer \<Rightarrow> consumer" where
  "loop_left disk how s =
     (case how of
        StopRequested \<Rightarrow> s
      | KeyboardInterrupt \<Rightarrow> print StoppedByUser s
      | KeyboardInterruptAt pt p \<Rightarrow>
          print StoppedByUser
            (case interrupted_at disk pt p s of
               Some s' \<Rightarrow> s'
             | None \<Rightarrow> state_of (process_message disk p s)))"

definition start_consuming :: "disk \<Rightarrow> poll_result list \<Rightarrow> stop \<Rightarrow> consumer \<Rightarrow> consumer outcome" where
  "start_consuming disk polls how s =
     (case poll_loop disk polls (s\<lparr>running := True\<rparr>) of
        Raised e s' \<Rightarrow>
          (case finally_clause disk s' of
             Raised e' s'' \<Rightarrow> Raised e' s''
           | Returned s'' \<Rightarrow> Raised e s'')
      | Returned s' \<Rightarrow> finally_clause disk (loop_left disk how s'))"

subsection \<open>What the consumer is observed to do\<close>

text \<open>
  The key a message is buffered under: the message reaches line 71 exactly when its
  payload is an object whose \<^verbatim>\<open>equipment_id\<close> is truthy and hashable.
\<close>

definition reading_key :: "payload \<Rightarrow> key option" where
  "reading_key p =
     (case p of
        Some (JObj kvs) \<Rightarrow>
          (case dict_get kvs ''equipment_id'' of
             None \<Rightarrow> None
           | Some e \<Rightarrow> if truthy e then hash_key e else None)
      | _ \<Rightarrow> None)"

text \<open>A payload without the field: undecodable, not an object, or an object without it.\<close>

definition lacks_equipment_id :: "payload \<Rightarrow> bool" where
  "lacks_equipment_id p =
     (case p of
        None \<Rightarrow> True
      | Some (JObj kvs) \<Rightarrow> dict_get kvs ''equipment_id'' = None
      | Some _ \<Rightarrow> True)"

text \<open>The buffer of a key, empty for a key the dictionary does not hold.\<close>

definition buf :: "key \<Rightarrow> consumer \<Rightarrow> json list" where
  "buf k s = (case getitem s k of None \<Rightarrow> [] | Some rows \<Rightarrow> rows)"

text \<open>The rows of the chosen calls of \<^verbatim>\<open>to_csv\<close>, in the order they were written.\<close>

definition rows_of :: "(csv_call \<Rightarrow> bool) \<Rightarrow> csv_call list \<Rightarrow> json list" where
  "rows_of P cs = concat (map csv_rows (filter P cs))"

definition persisted :: "key \<Rightarrow> consumer \<Rightarrow> json list" where
  "persisted k s = rows_of (\<lambda>c. csv_key c = k \<and> csv_ok c) (to_csv_calls s)"

definition persisted_by :: "trigger \<Rightarrow> key \<Rightarrow> consumer \<Rightarrow> json list" where
  "persisted_by t k s =
     rows_of (\<lambda>c. csv_key c = k \<and> csv_ok c \<and> csv_trigger c = t) (to_csv_calls s)"

text \<open>The readings of a poll sequence that are buffered under a key, in arrival order.\<close>

fun ingested :: "key \<Rightarrow> poll_result list \<Rightarrow> json list" where
  "ingested k [] = []"
| "ingested k (Message (Some d) # ps) =
     (if reading_key (Some d) = Some k then d # ingested k ps else ingested k ps)"
| "ingested k (_ # ps) = ingested k ps"

text \<open>The calls of \<^verbatim>\<open>to_csv\<close> made between two states, and the call site that made them.\<close>

definition new_calls :: "consumer \<Rightarrow> consumer \<Rightarrow> csv_call list" where
  "new_calls s s' = drop (length (to_csv_calls s)) (to_csv_calls s')"

definition made_by :: "trigger \<Rightarrow> consumer \<Rightarrow> consumer \<Rightarrow> bool" where
  "made_by t s s' \<longleftrightarrow>
     (\<exists>new. to_csv_calls s' = to_csv_calls s @ new \<and> list_all (\<lambda>c. csv_trigger c = t) new)"

text \<open>No call of \<^verbatim>\<open>to_csv\<close> has failed so far.\<close>

definition all_ok :: "consumer \<Rightarrow> bool" where
  "all_ok s = list_all csv_ok (to_csv_calls s)"

text \<open>Sample inputs.\<close>

definition example_reading :: "string \<Rightarrow> int \<Rightarrow> json" where
  "example_reading name i = JObj [(''equipment_id'', JStr name), (''temperature'', JInt i)]"

definition example_rows :: "json list" where
  "example_rows =
     [example_reading ''EQ-1'' 1, example_reading ''EQ-1'' 2, example_reading ''EQ-1'' 3]"

definition example_polls :: "poll_result list" where
  "example_polls =
     [Message (Some (example_reading ''EQ-1'' 1)), NoMessage,
      Message (Some (example_reading ''EQ-2'' 7)),
      Message (Some (example_reading ''EQ-1'' 2)), Message None, MsgError True,
      Message (Some (example_reading ''EQ-1'' 3))]"

section \<open>Simulation: \<^verbatim>\<open>data_simulator/sensor_simulator.py\<close>\<close>

subsection \<open>Python floats\<close>

text \<open>
  A Python float is an IEEE 754 binary64 number. A finite one is the rational it denotes,
  and an arithmetic operation returns the exact result rounded to 53 significant bits, to
  the nearest value and to the even significand on a tie. The exponent is not bounded
  here: the simulator computes with magnitudes between \<open>2\<^sup>-\<^sup>6\<^sup>0\<close> and \<open>2\<^sup>1\<^sup>0\<close>, far from
  overflow and from the subnormal numbers.
\<close>

definition round_even :: "rat \<Rightarrow> int" where
  "round_even q =
     (let f = \<lfloor>q\<rfloor>; r = q - of_int f
      in if r < 1/2 then f else if 1/2 < r then f + 1 else if even f then f else f + 1)"

text \<open>The exponent of a number other than 0: \<open>2\<^sup>e \<le> \<bar>x\<bar> < 2\<^sup>e\<^sup>+\<^sup>1\<close>.\<close>

definition flog2 :: "rat \<Rightarrow> int" where
  "flog2 x =
     (if 1 \<le> \<bar>x\<bar> then bitlen \<lfloor>\<bar>x\<bar>\<rfloor> - 1
      else - bitlen (\<lceil>1 / \<bar>x\<bar>\<rceil> - 1))"

definition rnd :: "rat \<Rightarrow> rat" where
  "rnd x = (if x = 0 then 0
            else let u = 2 powi (flog2 x - 52) in of_int (round_even (x / u)) * u)"

definition is_double :: "rat \<Rightarrow> bool" where
  "is_double x \<longleftrightarrow> rnd x = x"

definition fadd :: "rat \<Rightarrow> rat \<Rightarrow> rat" where
  "fadd x y = rnd (x + y)"

definition fsub :: "rat \<Rightarrow> rat \<Rightarrow> rat" where
  "fsub x y = rnd (x - y)"

definition fmul :: "rat \<Rightarrow> rat \<Rightarrow> rat" where
  "fmul x y = rnd (x * y)"

text \<open>The simulator divides by the constants 100 and 12 only.\<close>

definition fdiv :: "rat \<Rightarrow> rat \<Rightarrow> rat" where
  "fdiv x y = rnd (x / y)"

text \<open>
  \<^verbatim>\<open>round(x, ndigits)\<close> on a float: the decimal nearest to the exact value of \<open>x\<close> (ties to
  even), then the float nearest to that decimal.
\<close>

definition py_round :: "rat \<Rightarrow> nat \<Rightarrow> rat" where
  "py_round x ndigits = rnd (of_int (round_even (x * 10 ^ ndigits)) / 10 ^ ndigits)"

text \<open>\<^verbatim>\<open>random.uniform(a, b)\<close> is \<^verbatim>\<open>a + (b - a) * self.random()\<close>; \<open>u\<close> is what \<^verbatim>\<open>random()\<close> gave.\<close>

definition uniform :: "rat \<Rightarrow> rat \<Rightarrow> rat \<Rightarrow> rat" where
  "uniform a b u = fadd a (fmul (fsub b a) u)"

subsection \<open>The clock, numpy and the random source\<close>

text \<open>What the simulator reads off one value of \<^verbatim>\<open>datetime.now()\<close>.\<close>

record datetime =
  isoformat :: string
  hour :: nat
  weekday :: nat

text \<open>
  The two numpy functions the simulator relies on are parameters: \<^verbatim>\<open>np.sin\<close>, and the
  rounding of a \<^verbatim>\<open>np.float64\<close> (the temperature is one, through \<^verbatim>\<open>time_factor\<close>).
\<close>

record numpy =
  np_sin :: "rat \<Rightarrow> rat"
  np_round :: "rat \<Rightarrow> nat \<Rightarrow> rat"

text \<open>\<^verbatim>\<open>np.pi\<close>, the double nearest to \<open>\<pi>\<close>.\<close>

definition np_pi :: rat where
  "np_pi = 884279719003555 / 281474976710656"

datatype sensor = Temperature | Vibration | Pressure | NoiseLevel

text \<open>
  What the random source gives during one tick, in the order of the calls: two calls of
  \<^verbatim>\<open>random()\<close> for each channel, one for the anomaly test, and, when an anomaly fires, the
  choice of the sensor and one more call of \<^verbatim>\<open>random()\<close>.
\<close>

record draws =
  u_temperature :: "rat \<times> rat"
  u_vibration :: "rat \<times> rat"
  u_pressure :: "rat \<times> rat"
  u_noise_level :: "rat \<times> rat"
  u_anomaly :: rat
  choice :: sensor
  u_excursion :: rat

subsection \<open>\<^verbatim>\<open>SensorSimulator\<close>\<close>

record simulator =
  equipment_id :: string
  sim_running :: bool
  normal_temp_range :: "rat \<times> rat"
  normal_vibration_range :: "rat \<times> rat"
  normal_pressure_range :: "rat \<times> rat"
  normal_noise_range :: "rat \<times> rat"
  health_score :: rat
  degradation_rate :: rat
  has_producer :: bool
  topic :: string

text \<open>\<^verbatim>\<open>__init__\<close>; \<open>u\<close> is the call of \<^verbatim>\<open>random()\<close> behind the degradation rate.\<close>

definition sensor_simulator :: "string \<Rightarrow> bool \<Rightarrow> rat \<Rightarrow> simulator" where
  "sensor_simulator eid kafka u =
     \<lparr>equipment_id = eid, sim_running = False,
      normal_temp_range = (60, 80),
      normal_vibration_range = (rnd (1/10), 1/2),
      normal_pressure_range = (95, 105),
      normal_noise_range = (60, 75),
      health_score = 100,
      degradation_rate = uniform (rnd (1/100)) (rnd (1/20)) u,
      has_producer = kafka,
      topic = ''equipment-sensors''\<rparr>"

record channels =
  temperature :: rat
  vibration :: rat
  pressure :: rat
  noise_level :: rat

record sensor_reading =
  rd_equipment_id :: string
  rd_timestamp :: string
  rd_temperature :: rat
  rd_vibration :: rat
  rd_pressure :: rat
  rd_noise_level :: rat
  rd_health_score :: rat

subsection \<open>\<^verbatim>\<open>_generate_value\<close>\<close>

definition generate_value :: "rat \<times> rat \<Rightarrow> rat \<Rightarrow> rat \<Rightarrow> rat \<Rightarrow> rat \<times> rat \<Rightarrow> rat" where
  "generate_value normal_range base_multiplier health_effect noise u =
     (let base_value = uniform (fst normal_range) (snd normal_range) (fst u)
      in fadd (fadd (fmul base_value base_multiplier) health_effect)
              (uniform (- noise) noise (snd u)))"

subsection \<open>\<^verbatim>\<open>generate_sensor_reading\<close>\<close>

text \<open>Lines 40 and 41: the health score after the tick.\<close>

definition degrade :: "rat \<Rightarrow> rat \<Rightarrow> rat" where
  "degrade rate health = max 0 (fsub health rate)"

text \<open>Lines 49, 52 and 55.\<close>

definition time_factor :: "numpy \<Rightarrow> datetime \<Rightarrow> rat" where
  "time_factor np current_time =
     fadd 1 (fmul (rnd (1/5)) (np_sin np (fdiv (fmul np_pi (of_nat (hour current_time))) 12)))"

definition day_factor :: "datetime \<Rightarrow> rat" where
  "day_factor current_time =
     fadd 1 (fmul (rnd (1/10)) (if weekday current_time < 5 then 1 else - 1))"

definition health_factor :: "rat \<Rightarrow> rat" where
  "health_factor health = fdiv (fsub 100 health) 100"

text \<open>The health-effect term of each channel, lines 61, 68, 75 and 82.\<close>

fun health_effect :: "sensor \<Rightarrow> rat \<Rightarrow> rat" where
  "health_effect Temperature hf = fmul hf 30"
| "health_effect Vibration hf = fmul hf (3/2)"
| "health_effect Pressure hf = fmul hf (- 15)"
| "health_effect NoiseLevel hf = fmul hf 25"

text \<open>Lines 58 to 84: the four channels before any anomaly.\<close>

definition sample_channels :: "numpy \<Rightarrow> simulator \<Rightarrow> datetime \<Rightarrow> rat \<Rightarrow> draws \<Rightarrow> channels" where
  "sample_channels np s current_time hf d =
     \<lparr>temperature =
        generate_value (normal_temp_range s) (time_factor np current_time)
          (health_effect Temperature hf) 2 (u_temperature d),
      vibration =
        generate_value (normal_vibration_range s) (day_factor current_time)
          (health_effect Vibration hf) (rnd (1/20)) (u_vibration d),
      pressure =
        generate_value (normal_pressure_range s) 1
          (health_effect Pressure hf) 3 (u_pressure d),
      noise_level =
        generate_value (normal_noise_range s) (day_factor current_time)
          (health_effect NoiseLevel hf) 2 (u_noise_level d)\<rparr>"

text \<open>Line 87: the bound the anomaly draw is compared with.\<close>

definition anomaly_probability :: "rat \<Rightarrow> rat" where
  "anomaly_probability hf = fadd (rnd (1/100)) (fmul hf (rnd (1/10)))"

text \<open>Lines 90 to 97.\<close>

fun apply_anomaly :: "sensor \<Rightarrow> rat \<Rightarrow> channels \<Rightarrow> channels" where
  "apply_anomaly Temperature u c = c\<lparr>temperature := fadd (temperature c) (uniform 10 30 u)\<rparr>"
| "apply_anomaly Vibration u c = c\<lparr>vibration := fadd (vibration c) (uniform (1/2) 2 u)\<rparr>"
| "apply_anomaly Pressure u c = c\<lparr>pressure := fsub (pressure c) (uniform 10 30 u)\<rparr>"
| "apply_anomaly NoiseLevel u c = c\<lparr>noise_level := fadd (noise_level c) (uniform 10 20 u)\<rparr>"

text \<open>
  The whole method. \<open>now1\<close> is the value of \<^verbatim>\<open>datetime.now()\<close> at line 37 and \<open>now2\<close> its
  value at line 44.
\<close>

definition generate_sensor_reading ::
  "numpy \<Rightarrow> datetime \<Rightarrow> datetime \<Rightarrow> draws \<Rightarrow> simulator \<Rightarrow> sensor_reading \<times> simulator" where
  "generate_sensor_reading np now1 now2 d s =
     (let timestamp = isoformat now1;
          s1 = s\<lparr>health_score := degrade (degradation_rate s) (health_score s)\<rparr>;
          hf = health_factor (health_score s1);
          c = sample_channels np s1 now2 hf d;
          c' = (if u_anomaly d < anomaly_probability hf
                then apply_anomaly (choice d) (u_excursion d) c else c)
      in (\<lparr>rd_equipment_id = equipment_id s1,
           rd_timestamp = timestamp,
           rd_temperature = np_round np (temperature c') 2,
           rd_vibration = py_round (vibration c') 3,
           rd_pressure = py_round (pressure c') 2,
           rd_noise_level = py_round (noise_level c') 2,
           rd_health_score = py_round (health_score s1) 2\<rparr>, s1))"

text \<open>One input of a tick, and the loop of \<^verbatim>\<open>start_simulation\<close> over a list of them.\<close>

record tick_input =
  now1 :: datetime
  now2 :: datetime
  random :: draws

fun ticks :: "numpy \<Rightarrow> tick_input list \<Rightarrow> simulator \<Rightarrow> sensor_reading list \<times> simulator" where
  "ticks np [] s = ([], s)"
| "ticks np (i # is) s =
     (let (r, s1) = generate_sensor_reading np (now1 i) (now2 i) (random i) s;
          (rs, s2) = ticks np is s1
      in (r # rs, s2))"

text \<open>The health score alone, tick after tick.\<close>

fun health_after :: "nat \<Rightarrow> rat \<Rightarrow> rat \<Rightarrow> rat" where
  "health_after 0 rate health = health"
| "health_after (Suc n) rate health = health_after n rate (degrade rate health)"

text \<open>One channel of the four, by name.\<close>

definition channel :: "sensor \<Rightarrow> channels \<Rightarrow> rat" where
  "channel x c =
     (case x of Temperature \<Rightarrow> temperature c | Vibration \<Rightarrow> vibration c
      | Pressure \<Rightarrow> pressure c | NoiseLevel \<Rightarrow> noise_level c)"

subsection \<open>Sample inputs of the simulator\<close>

text \<open>
  Two instants a few microseconds apart, on either side of the midnight between a Friday
  and a Saturday.
\<close>

definition friday_night :: datetime where
  "friday_night = \<lparr>isoformat = ''2024-05-03T23:59:59.999999'', hour = 23, weekday = 4\<rparr>"

definition saturday_morning :: datetime where
  "saturday_morning = \<lparr>isoformat = ''2024-05-04T00:00:00.000001'', hour = 0, weekday = 5\<rparr>"

text \<open>
  The sine at the two arguments these instants lead to: \<^verbatim>\<open>np.pi * 23 / 12\<close> at hour 23, and 0
  at hour 0.
\<close>

definition example_numpy :: numpy where
  "example_numpy =
     \<lparr>np_sin = (\<lambda>x. if x = 6779477845693921 / 1125899906842624
                     then - (4662469420320415 / 18014398509481984) else 0),
      np_round = py_round\<rparr>"

definition example_draws :: draws where
  "example_draws =
     \<lparr>u_temperature = (1/2, 1/2), u_vibration = (1/2, 1/2), u_pressure = (1/2, 1/2),
      u_noise_level = (1/2, 1/2), u_anomaly = 1/2, choice = Temperature, u_excursion = 1/2\<rparr>"

definition example_input :: tick_input where
  "example_input = \<lparr>now1 = friday_night, now2 = friday_night, random = example_draws\<rparr>"

text \<open>A new simulator whose degradation rate is the float \<^verbatim>\<open>0.05\<close>.\<close>

definition example_simulator :: simulator where
  "example_simulator = (sensor_simulator ''EQUIP-001'' False 0)\<lparr>degradation_rate := rnd (1/20)\<rparr>"

section \<open>Rounding\<close>

lemma round_even_of_int: "round_even (of_int n) = n"
  by (simp add: round_even_def)

lemma round_even_cases:
  "round_even q = \<lfloor>q\<rfloor> \<or> round_even q = \<lfloor>q\<rfloor> + 1"
  by (simp add: round_even_def Let_def)

lemma round_even_floor_le: "\<lfloor>q\<rfloor> \<le> round_even q"
  using round_even_cases[of q] by auto

lemma round_even_le_floor: "round_even q \<le> \<lfloor>q\<rfloor> + 1"
  using round_even_cases[of q] by auto

lemma round_even_int_frac: "q = of_int \<lfloor>q\<rfloor> \<Longrightarrow> round_even q = \<lfloor>q\<rfloor>"
  by (simp add: round_even_def Let_def)

lemma round_even_mono:
  assumes "q \<le> q'"
  shows "round_even q \<le> round_even q'"
proof (cases "\<lfloor>q\<rfloor> = \<lfloor>q'\<rfloor>")
  case True
  then show ?thesis using assms by (auto simp: round_even_def Let_def)
next
  case False
  then have "\<lfloor>q\<rfloor> + 1 \<le> \<lfloor>q'\<rfloor>" using assms floor_mono[of q q'] by linarith
  then show ?thesis using round_even_le_floor[of q] round_even_floor_le[of q'] by linarith
qed

lemma round_even_ge: "of_int n \<le> q \<Longrightarrow> n \<le> round_even q"
  using round_even_mono[of "of_int n" q] by (simp add: round_even_of_int)

lemma round_even_le: "q \<le> of_int n \<Longrightarrow> round_even q \<le> n"
  using round_even_mono[of q "of_int n"] by (simp add: round_even_of_int)

lemma round_even_near:
  assumes "\<bar>q - of_int n\<bar> < 1/2"
  shows "round_even q = n"
proof (cases "of_int n \<le> q")
  case True
  then have "\<lfloor>q\<rfloor> = n" using assms by (intro floor_unique) auto
  then show ?thesis using assms True by (auto simp: round_even_def Let_def)
next
  case False
  then have "\<lfloor>q\<rfloor> = n - 1" using assms by (intro floor_unique) auto
  then show ?thesis using assms False by (auto simp: round_even_def Let_def)
qed

lemma round_even_minus: "round_even (- q) = - round_even q"
proof (cases "q = of_int \<lfloor>q\<rfloor>")
  case True
  then obtain n where "q = of_int n" by metis
  then show ?thesis using round_even_of_int[of n] round_even_of_int[of "- n"] by simp
next
  case False
  then have fl: "\<lfloor>- q\<rfloor> = - \<lfloor>q\<rfloor> - 1"
    by (intro floor_unique) (use floor_correct[of q] in \<open>auto simp: less_le\<close>)
  show ?thesis
    by (auto simp: round_even_def Let_def fl)
qed

lemma pow2_pos: "0 < (2::rat) powi e"
  by simp

lemma pow2_less_iff: "(2::rat) powi a < 2 powi b \<longleftrightarrow> a < b"
proof
  assume "(2::rat) powi a < 2 powi b"
  show "a < b"
  proof (rule ccontr)
    assume "\<not> a < b"
    then have "b \<le> a" by simp
    then have "(2::rat) powi b \<le> 2 powi a" by (intro power_int_increasing) auto
    with \<open>(2::rat) powi a < 2 powi b\<close> show False by simp
  qed
next
  assume "a < b"
  then show "(2::rat) powi a < 2 powi b" by (intro power_int_strict_increasing) auto
qed

lemma pow2_le_iff: "(2::rat) powi a \<le> 2 powi b \<longleftrightarrow> a \<le> b"
  using pow2_less_iff[of b a] by (auto simp: not_less[symmetric])

lemma pow2_add: "(2::rat) powi (a + b) = 2 powi a * 2 powi b"
  by (simp add: power_int_add)

lemma pow2_diff: "(2::rat) powi (a - b) = 2 powi a / 2 powi b"
  by (simp add: power_int_diff)

lemma bitlen_bounds_rat:
  assumes "0 < n"
  shows "(2::rat) powi (bitlen n - 1) \<le> of_int n" "of_int n < (2::rat) powi (bitlen n)"
proof -
  from bitlen_bounds[OF assms] have a: "2 ^ nat (bitlen n - 1) \<le> n" and b: "n < 2 ^ nat (bitlen n)"
    by auto
  have pos: "1 \<le> bitlen n" using assms bitlen_eq_zero_iff[of n] bitlen_nonneg[of n] by linarith
  have "(2::rat) powi (bitlen n - 1) = of_int (2 ^ nat (bitlen n - 1))"
    using pos by (simp add: power_int_def)
  also have "\<dots> \<le> of_int n" using a by (simp only: of_int_le_iff)
  finally show "(2::rat) powi (bitlen n - 1) \<le> of_int n" .
  have "(of_int n :: rat) < of_int (2 ^ nat (bitlen n))" using b by (simp only: of_int_less_iff)
  also have "\<dots> = 2 powi (bitlen n)" using pos by (simp add: power_int_def)
  finally show "of_int n < (2::rat) powi (bitlen n)" .
qed

lemma flog2_bounds:
  assumes "x \<noteq> 0"
  shows "2 powi (flog2 x) \<le> \<bar>x\<bar>" "\<bar>x\<bar> < 2 powi (flog2 x + 1)"
proof -
  have "2 powi (flog2 x) \<le> \<bar>x\<bar> \<and> \<bar>x\<bar> < 2 powi (flog2 x + 1)"
  proof (cases "1 \<le> \<bar>x\<bar>")
    case True
    let ?n = "\<lfloor>\<bar>x\<bar>\<rfloor>"
    have n: "0 < ?n" using True by simp
    have f: "flog2 x = bitlen ?n - 1" using True by (simp add: flog2_def)
    have "2 powi (bitlen ?n - 1) \<le> (of_int ?n :: rat)" using bitlen_bounds_rat(1)[OF n] .
    also have "\<dots> \<le> \<bar>x\<bar>" by simp
    finally have lo: "2 powi (flog2 x) \<le> \<bar>x\<bar>" by (simp add: f)
    have "?n + 1 \<le> 2 ^ nat (bitlen ?n)" using bitlen_bounds[OF n] by linarith
    then have "(of_int (?n + 1) :: rat) \<le> of_int (2 ^ nat (bitlen ?n))" by (simp only: of_int_le_iff)
    moreover have "\<bar>x\<bar> < of_int (?n + 1)" by linarith
    moreover have "(of_int (2 ^ nat (bitlen ?n)) :: rat) = 2 powi (bitlen ?n)"
      using bitlen_nonneg[of ?n] by (simp add: power_int_def)
    ultimately have "\<bar>x\<bar> < 2 powi (flog2 x + 1)" by (simp add: f)
    with lo show ?thesis by simp
  next
    case False
    let ?y = "1 / \<bar>x\<bar>"
    let ?m = "\<lceil>?y\<rceil> - 1"
    have xpos: "0 < \<bar>x\<bar>" using assms by simp
    have y1: "1 < ?y" using False xpos by (simp add: field_simps)
    have m: "0 < ?m" using y1 by linarith
    have f: "flog2 x = - bitlen ?m" using False by (simp add: flog2_def)
    have my: "of_int ?m < ?y" "?y \<le> of_int (?m + 1)" by linarith+
    have "(2::rat) powi (bitlen ?m - 1) < ?y" using bitlen_bounds_rat(1)[OF m] my(1) by linarith
    then have "\<bar>x\<bar> * 2 powi (bitlen ?m - 1) < 1" using xpos by (simp add: field_simps)
    moreover have "(2::rat) powi (- (bitlen ?m - 1)) * 2 powi (bitlen ?m - 1) = 1"
      by (simp flip: pow2_add)
    ultimately have "\<bar>x\<bar> * 2 powi (bitlen ?m - 1) < 2 powi (- (bitlen ?m - 1)) * 2 powi (bitlen ?m - 1)"
      by simp
    then have "\<bar>x\<bar> < 2 powi (- (bitlen ?m - 1))"
      using pow2_pos[of "bitlen ?m - 1"] by (simp only: mult_less_cancel_right_pos)
    moreover have "- (bitlen ?m - 1) = flog2 x + 1" by (simp add: f)
    ultimately have hi: "\<bar>x\<bar> < 2 powi (flog2 x + 1)" by (simp only:)
    have "?m + 1 \<le> 2 ^ nat (bitlen ?m)" using bitlen_bounds[OF m] by linarith
    then have "(of_int (?m + 1) :: rat) \<le> of_int (2 ^ nat (bitlen ?m))" by (simp only: of_int_le_iff)
    moreover have "(of_int (2 ^ nat (bitlen ?m)) :: rat) = 2 powi (bitlen ?m)"
      using bitlen_nonneg[of ?m] by (simp add: power_int_def)
    ultimately have "?y \<le> 2 powi (bitlen ?m)" using my(2) by linarith
    then have "1 \<le> \<bar>x\<bar> * 2 powi (bitlen ?m)" using xpos by (simp add: field_simps)
    moreover have "(2::rat) powi (- bitlen ?m) * 2 powi (bitlen ?m) = 1"
      by (simp flip: pow2_add)
    ultimately have "2 powi (- bitlen ?m) * 2 powi (bitlen ?m) \<le> \<bar>x\<bar> * 2 powi (bitlen ?m)"
      by simp
    then have "2 powi (- bitlen ?m) \<le> \<bar>x\<bar>"
      using pow2_pos[of "bitlen ?m"] by (simp only: mult_le_cancel_right_pos)
    then show ?thesis using hi by (simp add: f)
  qed
  then show "2 powi (flog2 x) \<le> \<bar>x\<bar>" "\<bar>x\<bar> < 2 powi (flog2 x + 1)" by auto
qed

lemma flog2_unique:
  assumes "2 powi e \<le> \<bar>x\<bar>" "\<bar>x\<bar> < 2 powi (e + 1)"
  shows "flog2 x = e"
proof -
  have "0 < \<bar>x\<bar>" using assms(1) pow2_pos[of e] by linarith
  then have "x \<noteq> 0" by simp
  note b = flog2_bounds[OF this]
  have "(2::rat) powi e < 2 powi (flog2 x + 1)" using assms(1) b(2) by linarith
  then have "e < flog2 x + 1" by (simp only: pow2_less_iff)
  moreover have "(2::rat) powi (flog2 x) < 2 powi (e + 1)" using assms(2) b(1) by linarith
  then have "flog2 x < e + 1" by (simp only: pow2_less_iff)
  ultimately show ?thesis by linarith
qed

lemma flog2_minus: "flog2 (- x) = flog2 x"
  by (simp add: flog2_def)

lemma flog2_mono:
  assumes "0 < x" "x \<le> y"
  shows "flog2 x \<le> flog2 y"
proof -
  have "x \<noteq> 0" "y \<noteq> 0" using assms by auto
  from flog2_bounds(1)[OF this(1)] flog2_bounds(2)[OF this(2)] assms
  have "(2::rat) powi (flog2 x) < 2 powi (flog2 y + 1)" by linarith
  then have "flog2 x < flog2 y + 1" by (simp only: pow2_less_iff)
  then show ?thesis by linarith
qed

lemma rnd_0: "rnd 0 = 0"
  by (simp add: rnd_def)

lemma rnd_grid:
  assumes "2 ^ 52 \<le> \<bar>q\<bar>" "\<bar>q\<bar> < 2 ^ 53"
  shows "rnd (q * 2 powi k) = of_int (round_even q) * 2 powi k"
proof -
  let ?x = "q * 2 powi k"
  have q0: "q \<noteq> 0" using assms(1) by auto
  then have x0: "?x \<noteq> 0" by simp
  have ax: "\<bar>?x\<bar> = \<bar>q\<bar> * 2 powi k" by (simp add: abs_mult)
  have "2 powi (52 + k) \<le> \<bar>?x\<bar>"
    using assms(1) pow2_pos[of k] by (simp add: ax pow2_add)
  moreover have "\<bar>?x\<bar> < 2 powi (52 + k + 1)"
  proof -
    have "\<bar>q\<bar> * 2 powi k < 2 ^ 53 * 2 powi k" using assms(2) pow2_pos[of k] by simp
    moreover have "(2::rat) powi (52 + k + 1) = 2 ^ 53 * 2 powi k"
      by (simp add: pow2_add)
    ultimately show ?thesis by (simp only: ax)
  qed
  ultimately have "flog2 ?x = 52 + k" by (rule flog2_unique)
  then show ?thesis using x0 by (simp add: rnd_def)
qed

lemma rnd_scaled:
  assumes "x \<noteq> 0"
  defines "u \<equiv> 2 powi (flog2 x - 52)"
  shows "2 ^ 52 \<le> \<bar>x / u\<bar>" "\<bar>x / u\<bar> < 2 ^ 53" "rnd x = of_int (round_even (x / u)) * u" "0 < u"
proof -
  show u: "0 < u" unfolding u_def by (rule pow2_pos)
  have au: "\<bar>x / u\<bar> = \<bar>x\<bar> / u" using u by (simp only: abs_divide abs_of_pos)
  have e1: "2 ^ 52 * u = 2 powi (flog2 x)"
    unfolding u_def pow2_diff by simp
  have "2 ^ 52 * u \<le> \<bar>x\<bar>"
    unfolding e1 by (rule flog2_bounds(1)[OF assms(1)])
  then have "2 ^ 52 \<le> \<bar>x\<bar> / u" using u by (simp only: pos_le_divide_eq)
  then show "2 ^ 52 \<le> \<bar>x / u\<bar>" by (simp only: au)
  have e2: "2 ^ 53 * u = 2 powi (flog2 x + 1)"
    unfolding u_def pow2_diff pow2_add by simp
  have "\<bar>x\<bar> < 2 ^ 53 * u"
    unfolding e2 by (rule flog2_bounds(2)[OF assms(1)])
  then have "\<bar>x\<bar> / u < 2 ^ 53" using u by (simp only: pos_divide_less_eq)
  then show "\<bar>x / u\<bar> < 2 ^ 53" by (simp only: au)
  show "rnd x = of_int (round_even (x / u)) * u"
    using assms(1) by (simp add: rnd_def u_def Let_def)
qed

lemma rnd_minus: "rnd (- x) = - rnd x"
  by (simp add: rnd_def flog2_minus round_even_minus Let_def)

lemma rnd_nonneg: "0 \<le> x \<Longrightarrow> 0 \<le> rnd x"
proof (cases "x = 0")
  case True
  then show ?thesis by (simp add: rnd_0)
next
  case False
  assume "0 \<le> x"
  note s = rnd_scaled[OF False]
  have "0 \<le> x / 2 powi (flog2 x - 52)" using \<open>0 \<le> x\<close> by simp
  then have "0 \<le> round_even (x / 2 powi (flog2 x - 52))"
    using round_even_ge[of 0] by simp
  then show ?thesis using s(3) s(4) by simp
qed

lemma rnd_nonpos: "x \<le> 0 \<Longrightarrow> rnd x \<le> 0"
  using rnd_nonneg[of "- x"] by (simp add: rnd_minus)

lemma rnd_pos_bounds:
  assumes "0 < x"
  shows "2 powi (flog2 x) \<le> rnd x" "rnd x \<le> 2 powi (flog2 x + 1)"
proof -
  have x0: "x \<noteq> 0" using assms by simp
  let ?u = "2 powi (flog2 x - 52) :: rat"
  note s = rnd_scaled[OF x0]
  have pos: "0 \<le> x / ?u" using assms by simp
  have "(of_int (2 ^ 52) :: rat) \<le> x / ?u" using s(1) pos by simp
  then have "2 ^ 52 \<le> round_even (x / ?u)" by (rule round_even_ge)
  then have "(of_int (2 ^ 52) :: rat) \<le> of_int (round_even (x / ?u))" by (simp only: of_int_le_iff)
  then have "2 ^ 52 * ?u \<le> rnd x" using s(3) s(4) by simp
  moreover have "2 ^ 52 * ?u = 2 powi (flog2 x)" by (simp add: pow2_diff)
  ultimately show "2 powi (flog2 x) \<le> rnd x" by simp
  have "x / ?u \<le> \<bar>x / ?u\<bar>" by (rule abs_ge_self)
  then have "x / ?u \<le> (of_int (2 ^ 53) :: rat)" using s(2) by simp
  then have "round_even (x / ?u) \<le> 2 ^ 53" by (rule round_even_le)
  then have "(of_int (round_even (x / ?u)) :: rat) \<le> of_int (2 ^ 53)" by (simp only: of_int_le_iff)
  then have "rnd x \<le> 2 ^ 53 * ?u" using s(3) s(4) by simp
  moreover have "2 ^ 53 * ?u = 2 powi (flog2 x + 1)" by (simp add: pow2_diff pow2_add)
  ultimately show "rnd x \<le> 2 powi (flog2 x + 1)" by simp
qed

lemma rnd_mono_pos:
  assumes "0 < x" "x \<le> y"
  shows "rnd x \<le> rnd y"
proof (cases "flog2 x = flog2 y")
  case True
  have x0: "x \<noteq> 0" and y0: "y \<noteq> 0" using assms by auto
  let ?u = "2 powi (flog2 x - 52) :: rat"
  have "x / ?u \<le> y / ?u" using assms(2) by (simp add: divide_right_mono)
  then have "round_even (x / ?u) \<le> round_even (y / ?u)" by (rule round_even_mono)
  then have "(of_int (round_even (x / ?u)) :: rat) * ?u \<le> of_int (round_even (y / ?u)) * ?u"
    by (simp add: mult_right_mono)
  then show ?thesis using x0 y0 True by (simp add: rnd_def Let_def)
next
  case False
  then have "flog2 x + 1 \<le> flog2 y" using flog2_mono[OF assms] by linarith
  then have "(2::rat) powi (flog2 x + 1) \<le> 2 powi (flog2 y)" by (simp only: pow2_le_iff)
  moreover have "0 < y" using assms by simp
  ultimately show ?thesis
    using rnd_pos_bounds(2)[OF assms(1)] rnd_pos_bounds(1)[of y] by linarith
qed

lemma rnd_mono:
  assumes "x \<le> y"
  shows "rnd x \<le> rnd y"
proof -
  consider "0 < x" | "x \<le> 0" "0 \<le> y" | "y < 0" by linarith
  then show ?thesis
  proof cases
    case 1
    then show ?thesis using assms by (rule rnd_mono_pos)
  next
    case 2
    then show ?thesis using rnd_nonpos[of x] rnd_nonneg[of y] by linarith
  next
    case 3
    then have "0 < - y" "- y \<le> - x" using assms by auto
    then have "rnd (- y) \<le> rnd (- x)" by (rule rnd_mono_pos)
    then show ?thesis by (simp add: rnd_minus)
  qed
qed


lemma rnd_fixed:
  assumes "2 ^ 52 \<le> \<bar>m\<bar>" "\<bar>m\<bar> \<le> 2 ^ 53"
  shows "rnd (of_int m * 2 powi k) = of_int m * 2 powi k"
proof (cases "\<bar>m\<bar> < 2 ^ 53")
  case True
  have "2 ^ 52 \<le> \<bar>of_int m :: rat\<bar>" "\<bar>of_int m :: rat\<bar> < 2 ^ 53"
    using assms(1) True by (simp_all flip: of_int_abs add: of_int_power_le_of_int_cancel_iff of_int_less_numeral_power_cancel_iff numeral_power_le_of_int_cancel_iff)
  from rnd_grid[OF this, of k] show ?thesis by (simp add: round_even_of_int)
next
  case False
  then have m: "\<bar>m\<bar> = 2 ^ 53" using assms(2) by simp
  then have mm: "m = 2 ^ 53 \<or> m = - (2 ^ 53)" by (cases "0 \<le> m") auto
  then have eq: "(of_int m :: rat) * 2 powi k = of_int (m div 2) * 2 powi (k + 1)"
    by (auto simp: pow2_add)
  have "2 ^ 52 \<le> \<bar>of_int (m div 2) :: rat\<bar>" "\<bar>of_int (m div 2) :: rat\<bar> < 2 ^ 53"
    using mm by auto
  from rnd_grid[OF this, of "k + 1"] show ?thesis by (simp add: eq round_even_of_int)
qed

lemma rnd_idem: "rnd (rnd x) = rnd x"
proof (cases "x = 0")
  case True
  then show ?thesis by (simp add: rnd_0)
next
  case False
  let ?u = "2 powi (flog2 x - 52) :: rat"
  let ?m = "round_even (x / ?u)"
  note s = rnd_scaled[OF False]
  have lo: "2 ^ 52 \<le> \<bar>?m\<bar>"
  proof (cases "0 \<le> x")
    case True
    then have "(of_int (2 ^ 52) :: rat) \<le> x / ?u" using s(1) by simp
    then have "2 ^ 52 \<le> ?m" by (rule round_even_ge)
    then show ?thesis by simp
  next
    case False
    then have "x / ?u < 0" using s(4) by (simp add: divide_neg_pos)
    then have "\<bar>x / ?u\<bar> = - (x / ?u)" by (rule abs_of_neg)
    then have "x / ?u \<le> (of_int (- (2 ^ 52)) :: rat)" using s(1) by simp
    then have "?m \<le> - (2 ^ 52)" by (rule round_even_le)
    then show ?thesis by simp
  qed
  have hi: "\<bar>?m\<bar> \<le> 2 ^ 53"
  proof -
    have "x / ?u < 2 ^ 53 \<and> - (x / ?u) < 2 ^ 53"
      using s(2) by (simp only: abs_less_iff)
    then have "x / ?u \<le> (of_int (2 ^ 53) :: rat)" "(of_int (- (2 ^ 53)) :: rat) \<le> x / ?u"
      by simp_all
    then have "?m \<le> 2 ^ 53" "- (2 ^ 53) \<le> ?m"
      using round_even_le round_even_ge by blast+
    then show ?thesis by simp
  qed
  show ?thesis using rnd_fixed[OF lo hi] s(3) by simp
qed

section \<open>Properties of the ingestion side\<close>

lemma rows_of_append: "rows_of P (xs @ ys) = rows_of P xs @ rows_of P ys"
  by (simp add: rows_of_def)

lemma getitem_setitem: "getitem (setitem k rows s) k' = (if k' = k then Some rows else getitem s k')"
  by (simp add: getitem_def setitem_def update_conv')

lemma getitem_print: "getitem (print l s) k = getitem s k"
  by (simp add: getitem_def print_def)

lemma calls_setitem: "to_csv_calls (setitem k rows s) = to_csv_calls s"
  by (simp add: setitem_def)

lemma calls_print: "to_csv_calls (print l s) = to_csv_calls s"
  by (simp add: print_def)

lemma bsize_setitem: "buffer_size (setitem k rows s) = buffer_size s"
  by (simp add: setitem_def)

lemma bsize_print: "buffer_size (print l s) = buffer_size s"
  by (simp add: print_def)

lemma getitem_calls: "getitem (s\<lparr>to_csv_calls := c\<rparr>) k = getitem s k"
  by (simp add: getitem_def)

lemmas upd_simps = getitem_setitem getitem_print getitem_calls calls_setitem calls_print
  bsize_setitem bsize_print

lemma save_buffer_noop:
  "getitem s k = None \<or> getitem s k = Some [] \<Longrightarrow> save_buffer disk t k s = Returned s"
  by (auto simp: save_buffer_def)

lemma save_buffer_ok:
  "getitem s k = Some rows \<Longrightarrow> rows \<noteq> [] \<Longrightarrow> disk (length (to_csv_calls s)) \<Longrightarrow>
   save_buffer disk t k s =
     Returned (setitem k [] (print (SavedRecords (length rows) k)
        (s\<lparr>to_csv_calls := to_csv_calls s @
              [\<lparr>csv_key = k, csv_rows = rows, csv_ok = True, csv_trigger = t\<rparr>]\<rparr>)))"
  by (simp add: save_buffer_def Let_def)

lemma save_buffer_fail:
  "getitem s k = Some rows \<Longrightarrow> rows \<noteq> [] \<Longrightarrow> \<not> disk (length (to_csv_calls s)) \<Longrightarrow>
   save_buffer disk t k s =
     Raised OSError (s\<lparr>to_csv_calls := to_csv_calls s @
              [\<lparr>csv_key = k, csv_rows = rows, csv_ok = False, csv_trigger = t\<rparr>]\<rparr>)"
  by (simp add: save_buffer_def Let_def)

lemma save_buffer_cases:
  obtains (noop) "getitem s k = None \<or> getitem s k = Some []" "save_buffer disk t k s = Returned s"
  | (ok) rows where "getitem s k = Some rows" "rows \<noteq> []" "disk (length (to_csv_calls s))"
      "save_buffer disk t k s =
     Returned (setitem k [] (print (SavedRecords (length rows) k)
        (s\<lparr>to_csv_calls := to_csv_calls s @
              [\<lparr>csv_key = k, csv_rows = rows, csv_ok = True, csv_trigger = t\<rparr>]\<rparr>)))"
  | (fail) rows where "getitem s k = Some rows" "rows \<noteq> []" "\<not> disk (length (to_csv_calls s))"
      "save_buffer disk t k s =
     Raised OSError (s\<lparr>to_csv_calls := to_csv_calls s @
              [\<lparr>csv_key = k, csv_rows = rows, csv_ok = False, csv_trigger = t\<rparr>]\<rparr>)"
proof (cases "getitem s k")
  case None
  then show ?thesis using noop save_buffer_noop by blast
next
  case (Some rows)
  show ?thesis
  proof (cases "rows = []")
    case True
    then show ?thesis using Some noop save_buffer_noop by blast
  next
    case False
    then show ?thesis using Some ok fail save_buffer_ok save_buffer_fail by (cases "disk (length (to_csv_calls s))") blast+
  qed
qed

lemma save_buffer_frame:
  "k' \<noteq> k \<Longrightarrow> getitem (state_of (save_buffer disk t k s)) k' = getitem s k'"
  by (rule save_buffer_cases[where s=s and k=k and disk=disk and t=t]) (simp_all add: upd_simps)

lemma save_buffer_inv:
  "persisted k' (state_of (save_buffer disk t k s)) @ buf k' (state_of (save_buffer disk t k s))
     = persisted k' s @ buf k' s"
  by (rule save_buffer_cases[where s=s and k=k and disk=disk and t=t])
     (auto simp add: upd_simps persisted_def buf_def rows_of_def)

lemma save_buffer_empties:
  "save_buffer disk t k s = Returned s' \<Longrightarrow> buf k s' = []"
  by (rule save_buffer_cases[where s=s and k=k and disk=disk and t=t])
     (auto simp add: upd_simps buf_def)

lemma save_buffer_keeps_empty:
  "buf k' s = [] \<Longrightarrow> buf k' (state_of (save_buffer disk t k s)) = []"
  by (rule save_buffer_cases[where s=s and k=k and disk=disk and t=t])
     (auto simp add: upd_simps buf_def)

lemma setitem_twice: "setitem k v (setitem k v' s) = setitem k v s"
  by (simp add: setitem_def)

lemma process_body_skip:
  "reading_key p = None \<Longrightarrow> state_of (process_body disk p s) = s"
  by (auto simp: reading_key_def process_body_def split: option.splits json.splits if_splits)

lemma process_body_ingest:
  assumes "reading_key p = Some k"
  shows "\<exists>d e. p = Some d \<and> process_body disk p s =
     (let s2 = setitem k (buf k s @ [d]) s
      in if length (buf k s @ [d]) \<ge> buffer_size s
         then (case save_buffer disk SizeTriggered k s2 of
                 Raised x s3 \<Rightarrow> Raised x s3
               | Returned s3 \<Rightarrow> Returned (print (ProcessedMessage e d) s3))
         else Returned (print (ProcessedMessage e d) s2))"
  using assms
  by (auto simp: reading_key_def process_body_def buf_def upd_simps setitem_twice Let_def
           split: option.splits json.splits if_splits)

lemma process_message_returns: "\<exists>s'. process_message disk p s = Returned s'"
  by (simp add: process_message_def split: outcome.splits)

lemma buf_print: "buf k (print l s) = buf k s"
  by (simp add: buf_def upd_simps)

lemma persisted_print: "persisted k (print l s) = persisted k s"
  by (simp add: persisted_def upd_simps)

lemma buf_setitem: "buf k' (setitem k rows s) = (if k' = k then rows else buf k' s)"
  by (simp add: buf_def upd_simps)

lemma persisted_setitem: "persisted k' (setitem k rows s) = persisted k' s"
  by (simp add: persisted_def upd_simps)

lemma state_of_process_message:
  "state_of (process_message disk p s) =
     (case process_body disk p s of Returned s' \<Rightarrow> s'
      | Raised e s' \<Rightarrow> print (ErrorProcessingMessage e) s')"
  by (simp add: process_message_def split: outcome.splits)

lemma process_message_inv:
  "persisted k' (state_of (process_message disk p s)) @ buf k' (state_of (process_message disk p s))
     = persisted k' s @ buf k' s @ ingested k' [Message p]"
proof (cases "reading_key p")
  case None
  then have "state_of (process_body disk p s) = s" by (rule process_body_skip)
  moreover have "ingested k' [Message p] = []" using None by (cases p) simp_all
  ultimately show ?thesis
    by (cases "process_body disk p s") (simp_all add: state_of_process_message buf_print persisted_print)
next
  case (Some k)
  from process_body_ingest[OF Some, of disk s] obtain d e where p: "p = Some d"
    and body: "process_body disk p s =
     (let s2 = setitem k (buf k s @ [d]) s
      in if length (buf k s @ [d]) \<ge> buffer_size s
         then (case save_buffer disk SizeTriggered k s2 of
                 Raised x s3 \<Rightarrow> Raised x s3
               | Returned s3 \<Rightarrow> Returned (print (ProcessedMessage e d) s3))
         else Returned (print (ProcessedMessage e d) s2))" by blast
  let ?s2 = "setitem k (buf k s @ [d]) s"
  have s2: "persisted k' ?s2 @ buf k' ?s2 = persisted k' s @ buf k' s @ ingested k' [Message p]"
    using Some p by (auto simp: buf_setitem persisted_setitem)
  have sv: "persisted k' (state_of (save_buffer disk SizeTriggered k ?s2)) @
            buf k' (state_of (save_buffer disk SizeTriggered k ?s2)) =
            persisted k' s @ buf k' s @ ingested k' [Message p]"
    using save_buffer_inv[of k' disk SizeTriggered k ?s2] s2 by simp
  show ?thesis
    using s2 sv
    by (cases "save_buffer disk SizeTriggered k ?s2")
       (auto simp: state_of_process_message body Let_def buf_print persisted_print)
qed

lemma ingested_Cons: "ingested k (p # ps) = ingested k [p] @ ingested k ps"
  by (cases "(k, p # ps)" rule: ingested.cases) auto

lemma poll_loop_returns: "\<exists>s'. poll_loop disk ps s = Returned s'"
proof (induction ps arbitrary: s)
  case Nil
  show ?case by simp
next
  case (Cons p ps)
  show ?case
  proof (cases p)
    case NoMessage
    then show ?thesis using Cons by simp
  next
    case (MsgError eof)
    then show ?thesis using Cons by simp
  next
    case (Message m)
    obtain s1 where "process_message disk m s = Returned s1"
      using process_message_returns by blast
    then show ?thesis using Message Cons by simp
  qed
qed

lemma poll_loop_inv:
  "persisted k (state_of (poll_loop disk ps s)) @ buf k (state_of (poll_loop disk ps s))
     = persisted k s @ buf k s @ ingested k ps"
proof (induction ps arbitrary: s)
  case Nil
  show ?case by simp
next
  case (Cons p ps)
  show ?case
  proof (cases p)
    case NoMessage
    then show ?thesis using Cons by simp
  next
    case (MsgError eof)
    then show ?thesis using Cons by (simp add: buf_print persisted_print)
  next
    case (Message m)
    obtain s1 where s1: "process_message disk m s = Returned s1"
      using process_message_returns by blast
    have "persisted k s1 @ buf k s1 = persisted k s @ buf k s @ ingested k [Message m]"
      using process_message_inv[of k disk m s] s1 by simp
    then show ?thesis
      using Message s1 Cons[of s1] ingested_Cons[of k "Message m" ps] by simp
  qed
qed

lemma made_by_refl: "made_by t s s"
  by (simp add: made_by_def)

lemma made_by_trans: "made_by t s s' \<Longrightarrow> made_by t s' s'' \<Longrightarrow> made_by t s s''"
  by (auto simp: made_by_def)

lemma made_by_same_calls: "to_csv_calls s' = to_csv_calls s \<Longrightarrow> made_by t s s'"
  by (simp add: made_by_def)

lemma save_buffer_made_by: "made_by t s (state_of (save_buffer disk t k s))"
  by (rule save_buffer_cases[where s=s and k=k and disk=disk and t=t])
     (simp_all add: made_by_def upd_simps)

lemma process_body_made_by: "made_by SizeTriggered s (state_of (process_body disk p s))"
proof (cases "reading_key p")
  case None
  then show ?thesis by (simp add: process_body_skip made_by_refl)
next
  case (Some k)
  from process_body_ingest[OF Some, of disk s] obtain d e where
    body: "process_body disk p s =
     (let s2 = setitem k (buf k s @ [d]) s
      in if length (buf k s @ [d]) \<ge> buffer_size s
         then (case save_buffer disk SizeTriggered k s2 of
                 Raised x s3 \<Rightarrow> Raised x s3
               | Returned s3 \<Rightarrow> Returned (print (ProcessedMessage e d) s3))
         else Returned (print (ProcessedMessage e d) s2))" by blast
  let ?s2 = "setitem k (buf k s @ [d]) s"
  have "made_by SizeTriggered s ?s2" by (simp add: made_by_same_calls upd_simps)
  moreover have "made_by SizeTriggered ?s2 (state_of (save_buffer disk SizeTriggered k ?s2))"
    by (rule save_buffer_made_by)
  ultimately have "made_by SizeTriggered s (state_of (save_buffer disk SizeTriggered k ?s2))"
    by (rule made_by_trans)
  then show ?thesis
    using \<open>made_by SizeTriggered s ?s2\<close>
    by (cases "save_buffer disk SizeTriggered k ?s2")
       (auto simp: body Let_def made_by_def upd_simps)
qed

lemma process_message_made_by: "made_by SizeTriggered s (state_of (process_message disk p s))"
  using process_body_made_by[of s disk p]
  by (cases "process_body disk p s") (auto simp: state_of_process_message made_by_def upd_simps)

lemma poll_loop_made_by: "made_by SizeTriggered s (state_of (poll_loop disk ps s))"
proof (induction ps arbitrary: s)
  case Nil
  show ?case by (simp add: made_by_refl)
next
  case (Cons p ps)
  show ?case
  proof (cases p)
    case NoMessage
    then show ?thesis using Cons by simp
  next
    case (MsgError eof)
    have "made_by SizeTriggered s (print (if eof then ReachedEndOfPartition else PollError) s)"
      by (simp add: made_by_same_calls upd_simps)
    then show ?thesis using MsgError Cons[of "print (if eof then ReachedEndOfPartition else PollError) s"] by (auto intro: made_by_trans)
  next
    case (Message m)
    obtain s1 where s1: "process_message disk m s = Returned s1"
      using process_message_returns by blast
    have "made_by SizeTriggered s s1" using process_message_made_by[of s disk m] s1 by simp
    then show ?thesis using Message s1 Cons[of s1] by (auto intro: made_by_trans)
  qed
qed

lemma save_keys_made_by: "made_by ShutdownFlush s (state_of (save_keys disk ks s))"
proof (induction ks arbitrary: s)
  case Nil
  show ?case by (simp add: made_by_refl)
next
  case (Cons k ks)
  have step: "made_by ShutdownFlush s (state_of (save_buffer disk ShutdownFlush k s))"
    by (rule save_buffer_made_by)
  show ?case
  proof (cases "save_buffer disk ShutdownFlush k s")
    case (Returned s1)
    then show ?thesis using step Cons[of s1] by (auto intro: made_by_trans)
  next
    case (Raised e s1)
    then show ?thesis using step by simp
  qed
qed

lemma save_keys_inv:
  "persisted k' (state_of (save_keys disk ks s)) @ buf k' (state_of (save_keys disk ks s))
     = persisted k' s @ buf k' s"
proof (induction ks arbitrary: s)
  case Nil
  show ?case by simp
next
  case (Cons k ks)
  have step: "persisted k' (state_of (save_buffer disk ShutdownFlush k s)) @
              buf k' (state_of (save_buffer disk ShutdownFlush k s)) = persisted k' s @ buf k' s"
    by (rule save_buffer_inv)
  show ?case
  proof (cases "save_buffer disk ShutdownFlush k s")
    case (Returned s1)
    then show ?thesis using step Cons[of s1] by simp
  next
    case (Raised e s1)
    then show ?thesis using step by simp
  qed
qed

lemma save_keys_keeps_empty:
  "buf k' s = [] \<Longrightarrow> buf k' (state_of (save_keys disk ks s)) = []"
proof (induction ks arbitrary: s)
  case Nil
  then show ?case by simp
next
  case (Cons k ks)
  have step: "buf k' (state_of (save_buffer disk ShutdownFlush k s)) = []"
    using Cons.prems by (rule save_buffer_keeps_empty)
  show ?case
  proof (cases "save_buffer disk ShutdownFlush k s")
    case (Returned s1)
    then show ?thesis using step Cons.IH[of s1] by simp
  next
    case (Raised e s1)
    then show ?thesis using step by simp
  qed
qed

lemma save_keys_empties:
  "save_keys disk ks s = Returned s' \<Longrightarrow> k' \<in> set ks \<Longrightarrow> buf k' s' = []"
proof (induction ks arbitrary: s)
  case Nil
  then show ?case by simp
next
  case (Cons k ks)
  show ?case
  proof (cases "save_buffer disk ShutdownFlush k s")
    case (Raised e s1)
    then show ?thesis using Cons.prems by simp
  next
    case (Returned s1)
    then have rest: "save_keys disk ks s1 = Returned s'" using Cons.prems by simp
    show ?thesis
    proof (cases "k' \<in> set ks")
      case True
      then show ?thesis using Cons.IH[OF rest] by simp
    next
      case False
      then have "k' = k" using Cons.prems by simp
      then have "buf k' s1 = []" using Returned save_buffer_empties by blast
      then show ?thesis using save_keys_keeps_empty[of k' s1 disk ks] rest by simp
    qed
  qed
qed

lemma save_all_buffers_empties:
  assumes "save_all_buffers disk s = Returned s'"
  shows "buf k s' = []"
proof (cases "k \<in> set (map fst (data_buffer s))")
  case True
  then show ?thesis using assms save_keys_empties[of disk "map fst (data_buffer s)" s s' k] by (simp add: save_all_buffers_def)
next
  case False
  then have "map_of (data_buffer s) k = None" by (simp add: map_of_eq_None_iff)
  then have "buf k s = []" by (simp add: buf_def getitem_def)
  then show ?thesis
    using save_keys_keeps_empty[of k s disk "map fst (data_buffer s)"] assms
    by (simp add: save_all_buffers_def)
qed

lemma rows_of_all:
  "list_all (\<lambda>c. csv_trigger c = t) cs \<Longrightarrow>
   rows_of (\<lambda>c. csv_key c = k \<and> csv_ok c \<and> csv_trigger c = t') cs =
     (if t' = t then rows_of (\<lambda>c. csv_key c = k \<and> csv_ok c) cs else [])"
  by (induction cs) (auto simp: rows_of_def)

lemma split_by_trigger:
  assumes "made_by SizeTriggered s0 s1" "to_csv_calls s0 = []"
    and "made_by ShutdownFlush s1 s2"
  shows "persisted_by SizeTriggered k s2 @ persisted_by ShutdownFlush k s2 = persisted k s2"
proof -
  from assms(1,2) have a: "list_all (\<lambda>c. csv_trigger c = SizeTriggered) (to_csv_calls s1)"
    by (auto simp: made_by_def)
  from assms(3) obtain new where n: "to_csv_calls s2 = to_csv_calls s1 @ new"
    and b: "list_all (\<lambda>c. csv_trigger c = ShutdownFlush) new"
    by (auto simp: made_by_def)
  show ?thesis
    by (simp add: persisted_by_def persisted_def n rows_of_append rows_of_all[OF a] rows_of_all[OF b])
qed

lemma finally_clause_Returned:
  assumes "finally_clause disk s = Returned s'"
  shows "\<exists>s2. save_all_buffers disk s = Returned s2 \<and> s' = s2\<lparr>closed := True, running := False\<rparr>"
  using assms by (auto simp: finally_clause_def split: outcome.splits)

lemma poll_loop_append:
  "poll_loop disk (ps @ qs) s =
     (case poll_loop disk ps s of Returned s' \<Rightarrow> poll_loop disk qs s' | Raised e s' \<Rightarrow> Raised e s')"
proof (induction ps arbitrary: s)
  case Nil
  show ?case by simp
next
  case (Cons p ps)
  show ?case
  proof (cases p)
    case NoMessage
    then show ?thesis using Cons by simp
  next
    case (MsgError eof)
    then show ?thesis using Cons by simp
  next
    case (Message m)
    then show ?thesis using Cons by (simp split: outcome.splits)
  qed
qed

lemma process_message_below:
  assumes "reading_key (Some d) = Some k" "length (buf k s) + 1 < buffer_size s"
  shows "\<exists>e. process_message disk (Some d) s =
           Returned (print (ProcessedMessage e d) (setitem k (buf k s @ [d]) s))"
  using process_body_ingest[OF assms(1), of disk s] assms(2)
  by (auto simp: process_message_def Let_def)

lemma poll_loop_below:
  assumes "list_all (\<lambda>d. reading_key (Some d) = Some k) ds"
    and "length (buf k s) + length ds < buffer_size s"
  shows "\<exists>s'. poll_loop disk (map (\<lambda>d. Message (Some d)) ds) s = Returned s' \<and>
           getitem s' k = (if ds = [] then getitem s k else Some (buf k s @ ds)) \<and>
           to_csv_calls s' = to_csv_calls s \<and> buffer_size s' = buffer_size s"
  using assms
proof (induction ds arbitrary: s)
  case Nil
  show ?case by simp
next
  case (Cons d ds)
  have key: "reading_key (Some d) = Some k" using Cons.prems(1) by simp
  have "length (buf k s) + 1 < buffer_size s" using Cons.prems(2) by simp
  with key obtain e where
    step: "process_message disk (Some d) s =
             Returned (print (ProcessedMessage e d) (setitem k (buf k s @ [d]) s))"
    using process_message_below by blast
  let ?s1 = "print (ProcessedMessage e d) (setitem k (buf k s @ [d]) s)"
  have b1: "buf k ?s1 = buf k s @ [d]" by (simp add: buf_print buf_setitem)
  have "list_all (\<lambda>d. reading_key (Some d) = Some k) ds" using Cons.prems(1) by simp
  moreover have "length (buf k ?s1) + length ds < buffer_size ?s1"
    using Cons.prems(2) by (simp add: b1 upd_simps)
  ultimately obtain s' where
    "poll_loop disk (map (\<lambda>d. Message (Some d)) ds) ?s1 = Returned s'"
    "getitem s' k = (if ds = [] then getitem ?s1 k else Some (buf k ?s1 @ ds))"
    "to_csv_calls s' = to_csv_calls ?s1" "buffer_size s' = buffer_size ?s1"
    using Cons.IH[of ?s1] by blast
  then show ?case using step by (simp add: b1 upd_simps)
qed

lemma new_calls_append: "to_csv_calls s' = to_csv_calls s @ cs \<Longrightarrow> new_calls s s' = cs"
  by (simp add: new_calls_def)

lemma size_trigger_fires:
  assumes keyed: "list_all (\<lambda>d. reading_key (Some d) = Some k) ds"
    and empty: "buf k s = []"
    and full: "length ds = buffer_size s" and pos: "0 < buffer_size s"
  shows "\<exists>s'. poll_loop disk (map (\<lambda>d. Message (Some d)) ds) s = Returned s' \<and>
           new_calls s s' = [\<lparr>csv_key = k, csv_rows = ds, csv_ok = disk (length (to_csv_calls s)),
                               csv_trigger = SizeTriggered\<rparr>] \<and>
           getitem s' k = Some (if disk (length (to_csv_calls s)) then [] else ds)"
proof -
  from full pos have "ds \<noteq> []" by auto
  then obtain ds0 d where ds: "ds = ds0 @ [d]" by (meson rev_exhaust)
  have k0: "list_all (\<lambda>d. reading_key (Some d) = Some k) ds0" and kd: "reading_key (Some d) = Some k"
    using keyed by (simp_all add: ds)
  have "length (buf k s) + length ds0 < buffer_size s" using full empty by (simp add: ds)
  from poll_loop_below[OF k0 this, of disk] obtain s1 where
    s1: "poll_loop disk (map (\<lambda>d. Message (Some d)) ds0) s = Returned s1"
    and g1: "getitem s1 k = (if ds0 = [] then getitem s k else Some (buf k s @ ds0))"
    and c1: "to_csv_calls s1 = to_csv_calls s" and b1: "buffer_size s1 = buffer_size s"
    by blast
  have buf1: "buf k s1 = ds0" using g1 empty by (auto simp: buf_def)
  from process_body_ingest[OF kd, of disk s1] obtain e where
    body: "process_body disk (Some d) s1 =
     (let s2 = setitem k (buf k s1 @ [d]) s1
      in if length (buf k s1 @ [d]) \<ge> buffer_size s1
         then (case save_buffer disk SizeTriggered k s2 of
                 Raised x s3 \<Rightarrow> Raised x s3
               | Returned s3 \<Rightarrow> Returned (print (ProcessedMessage e d) s3))
         else Returned (print (ProcessedMessage e d) s2))" by blast
  let ?s2 = "setitem k ds s1"
  have g2: "getitem ?s2 k = Some ds" by (simp add: upd_simps)
  have body': "process_body disk (Some d) s1 =
      (case save_buffer disk SizeTriggered k ?s2 of
                 Raised x s3 \<Rightarrow> Raised x s3
               | Returned s3 \<Rightarrow> Returned (print (ProcessedMessage e d) s3))"
    using body full by (simp add: buf1 b1 ds Let_def)
  show ?thesis
  proof (cases "disk (length (to_csv_calls s))")
    case True
    then have "disk (length (to_csv_calls ?s2))" by (simp add: upd_simps c1)
    then have "save_buffer disk SizeTriggered k ?s2 =
     Returned (setitem k [] (print (SavedRecords (length ds) k)
        (?s2\<lparr>to_csv_calls := to_csv_calls ?s2 @
              [\<lparr>csv_key = k, csv_rows = ds, csv_ok = True, csv_trigger = SizeTriggered\<rparr>]\<rparr>)))"
      using g2 \<open>ds \<noteq> []\<close> by (rule_tac save_buffer_ok)
    with True show ?thesis
      by (simp add: poll_loop_append s1 ds process_message_def body' upd_simps c1 new_calls_append)
  next
    case False
    then have "\<not> disk (length (to_csv_calls ?s2))" by (simp add: upd_simps c1)
    then have "save_buffer disk SizeTriggered k ?s2 =
     Raised OSError (?s2\<lparr>to_csv_calls := to_csv_calls ?s2 @
              [\<lparr>csv_key = k, csv_rows = ds, csv_ok = False, csv_trigger = SizeTriggered\<rparr>]\<rparr>)"
      using g2 \<open>ds \<noteq> []\<close> by (rule_tac save_buffer_fail)
    with False show ?thesis
      by (simp add: poll_loop_append s1 ds process_message_def body' upd_simps c1 new_calls_append)
  qed
qed

lemma save_buffer_Returned:
  assumes "save_buffer disk t k0 s = Returned s1"
  shows "to_csv_calls s1 = to_csv_calls s @
           (if buf k0 s \<noteq> [] then [\<lparr>csv_key = k0, csv_rows = buf k0 s, csv_ok = True, csv_trigger = t\<rparr>] else [])"
    and "getitem s1 k = (if k = k0 \<and> buf k0 s \<noteq> [] then Some [] else getitem s k)"
  using assms
  by (rule_tac [!] save_buffer_cases[where s=s and k=k0 and disk=disk and t=t])
     (auto simp: buf_def upd_simps)

lemma save_keys_Returned:
  assumes "save_keys disk ks s = Returned s'"
  shows "\<exists>new. to_csv_calls s' = to_csv_calls s @ new \<and>
           filter (\<lambda>c. csv_key c = k) new =
             (if k \<in> set ks \<and> buf k s \<noteq> []
              then [\<lparr>csv_key = k, csv_rows = buf k s, csv_ok = True, csv_trigger = ShutdownFlush\<rparr>]
              else []) \<and>
           getitem s' k = (if k \<in> set ks \<and> buf k s \<noteq> [] then Some [] else getitem s k)"
  using assms
proof (induction ks arbitrary: s)
  case Nil
  then show ?case by simp
next
  case (Cons k0 ks)
  show ?case
  proof (cases "save_buffer disk ShutdownFlush k0 s")
    case (Raised e s1)
    then show ?thesis using Cons.prems by simp
  next
    case (Returned s1)
    then have rest: "save_keys disk ks s1 = Returned s'" using Cons.prems by simp
    note c1 = save_buffer_Returned(1)[OF Returned]
    note g1 = save_buffer_Returned(2)[OF Returned, of k]
    have b1: "buf k s1 = (if k = k0 then [] else buf k s)"
      using g1 by (auto simp: buf_def)
    from Cons.IH[OF rest] obtain new where
      n: "to_csv_calls s' = to_csv_calls s1 @ new"
      and f: "filter (\<lambda>c. csv_key c = k) new =
             (if k \<in> set ks \<and> buf k s1 \<noteq> []
              then [\<lparr>csv_key = k, csv_rows = buf k s1, csv_ok = True, csv_trigger = ShutdownFlush\<rparr>]
              else [])"
      and g: "getitem s' k = (if k \<in> set ks \<and> buf k s1 \<noteq> [] then Some [] else getitem s1 k)"
      by blast
    show ?thesis
      using n f g c1 g1 b1 by (auto simp: buf_def)
  qed
qed

lemmas run_simps = start_consuming_def finally_clause_def save_all_buffers_def process_message_def
  process_body_def save_buffer_def dict_get_def getitem_def setitem_def print_def init_def
  example_reading_def Let_def new_calls_def buf_def persisted_def persisted_by_def rows_of_def reading_key_def

lemma buffer_manager_parts:
  assumes keyed: "list_all (\<lambda>d. reading_key (Some d) = Some k) ds"
    and empty: "buf k s = []"
    and pos: "0 < buffer_size s"
  shows "length ds = buffer_size s \<Longrightarrow>
           (\<exists>s'. poll_loop disk (map (\<lambda>d. Message (Some d)) ds) s = Returned s' \<and>
              new_calls s s' =
                [\<lparr>csv_key = k, csv_rows = ds, csv_ok = disk (length (to_csv_calls s)),
                  csv_trigger = SizeTriggered\<rparr>] \<and>
              getitem s' k = Some (if disk (length (to_csv_calls s)) then [] else ds))"
    and "length ds < buffer_size s \<Longrightarrow>
           (\<exists>s1. poll_loop disk (map (\<lambda>d. Message (Some d)) ds) s = Returned s1 \<and>
              new_calls s s1 = [] \<and> buf k s1 = ds \<and>
              (\<forall>s2. save_all_buffers disk s1 = Returned s2 \<longrightarrow>
                 filter (\<lambda>c. csv_key c = k) (new_calls s s2) =
                   (if ds = [] then []
                    else [\<lparr>csv_key = k, csv_rows = ds, csv_ok = True, csv_trigger = ShutdownFlush\<rparr>]) \<and>
                 buf k s2 = [] \<and> (ds \<noteq> [] \<longrightarrow> getitem s2 k = Some [])))"
    and "save_buffer disk t k s = Returned s"
proof -
  show "save_buffer disk t k s = Returned s"
    using empty by (intro save_buffer_noop) (auto simp: buf_def split: option.splits)
next
  assume "length ds = buffer_size s"
  with keyed empty pos show "\<exists>s'. poll_loop disk (map (\<lambda>d. Message (Some d)) ds) s = Returned s' \<and>
              new_calls s s' =
                [\<lparr>csv_key = k, csv_rows = ds, csv_ok = disk (length (to_csv_calls s)),
                  csv_trigger = SizeTriggered\<rparr>] \<and>
              getitem s' k = Some (if disk (length (to_csv_calls s)) then [] else ds)"
    by (rule_tac size_trigger_fires)
next
  assume less: "length ds < buffer_size s"
  then have "length (buf k s) + length ds < buffer_size s" using empty by simp
  from poll_loop_below[OF keyed this, of disk] obtain s1 where
    s1: "poll_loop disk (map (\<lambda>d. Message (Some d)) ds) s = Returned s1"
    and g1: "getitem s1 k = (if ds = [] then getitem s k else Some (buf k s @ ds))"
    and c1: "to_csv_calls s1 = to_csv_calls s"
    by blast
  have buf1: "buf k s1 = ds" using g1 empty by (auto simp: buf_def)
  have mem: "ds \<noteq> [] \<Longrightarrow> k \<in> set (map fst (data_buffer s1))"
    using g1 by (auto simp: getitem_def dest: map_of_SomeD intro: rev_image_eqI)
  have "filter (\<lambda>c. csv_key c = k) (new_calls s s2) =
                   (if ds = [] then []
                    else [\<lparr>csv_key = k, csv_rows = ds, csv_ok = True, csv_trigger = ShutdownFlush\<rparr>]) \<and>
                 buf k s2 = [] \<and> (ds \<noteq> [] \<longrightarrow> getitem s2 k = Some [])"
    if s2: "save_all_buffers disk s1 = Returned s2" for s2
  proof -
    from s2 have "save_keys disk (map fst (data_buffer s1)) s1 = Returned s2"
      by (simp add: save_all_buffers_def)
    from save_keys_Returned[OF this, of k] obtain new where
      n: "to_csv_calls s2 = to_csv_calls s1 @ new"
      and f: "filter (\<lambda>c. csv_key c = k) new =
             (if k \<in> set (map fst (data_buffer s1)) \<and> buf k s1 \<noteq> []
              then [\<lparr>csv_key = k, csv_rows = buf k s1, csv_ok = True, csv_trigger = ShutdownFlush\<rparr>]
              else [])"
      and g: "getitem s2 k = (if k \<in> set (map fst (data_buffer s1)) \<and> buf k s1 \<noteq> [] then Some [] else getitem s1 k)"
      by blast
    have nc: "new_calls s s2 = new" using n c1 by (simp add: new_calls_def)
    have "buf k s2 = []" using s2 by (rule save_all_buffers_empties)
    then show ?thesis using f g mem by (auto simp: nc buf1)
  qed
  then show "\<exists>s1. poll_loop disk (map (\<lambda>d. Message (Some d)) ds) s = Returned s1 \<and>
              new_calls s s1 = [] \<and> buf k s1 = ds \<and>
              (\<forall>s2. save_all_buffers disk s1 = Returned s2 \<longrightarrow>
                 filter (\<lambda>c. csv_key c = k) (new_calls s s2) =
                   (if ds = [] then []
                    else [\<lparr>csv_key = k, csv_rows = ds, csv_ok = True, csv_trigger = ShutdownFlush\<rparr>]) \<and>
                 buf k s2 = [] \<and> (ds \<noteq> [] \<longrightarrow> getitem s2 k = Some []))"
    using s1 c1 buf1 by (auto simp: new_calls_def)
qed

lemma save_buffer_reliable:
  assumes "\<forall>n. disk n"
  shows "\<exists>s1. save_buffer disk t k s = Returned s1 \<and> (all_ok s \<longrightarrow> all_ok s1)"
  by (rule save_buffer_cases[where s=s and k=k and disk=disk and t=t])
     (use assms in \<open>auto simp: all_ok_def upd_simps\<close>)

lemma process_message_reliable:
  assumes "\<forall>n. disk n"
  shows "\<exists>s1. process_message disk p s = Returned s1 \<and> (all_ok s \<longrightarrow> all_ok s1)"
proof (cases "reading_key p")
  case None
  then have "state_of (process_body disk p s) = s" by (rule process_body_skip)
  then show ?thesis
    by (cases "process_body disk p s") (auto simp: process_message_def all_ok_def upd_simps)
next
  case (Some k)
  from process_body_ingest[OF Some, of disk s] obtain d e where
    body: "process_body disk p s =
     (let s2 = setitem k (buf k s @ [d]) s
      in if length (buf k s @ [d]) \<ge> buffer_size s
         then (case save_buffer disk SizeTriggered k s2 of
                 Raised x s3 \<Rightarrow> Raised x s3
               | Returned s3 \<Rightarrow> Returned (print (ProcessedMessage e d) s3))
         else Returned (print (ProcessedMessage e d) s2))" by blast
  let ?s2 = "setitem k (buf k s @ [d]) s"
  obtain s3 where s3: "save_buffer disk SizeTriggered k ?s2 = Returned s3"
    and ok3: "all_ok ?s2 \<longrightarrow> all_ok s3"
    using save_buffer_reliable[OF assms] by blast
  show ?thesis
    using s3 ok3 by (auto simp: process_message_def body Let_def all_ok_def upd_simps)
qed

lemma poll_loop_reliable:
  assumes "\<forall>n. disk n"
  shows "\<exists>s1. poll_loop disk ps s = Returned s1 \<and> (all_ok s \<longrightarrow> all_ok s1)"
proof (induction ps arbitrary: s)
  case Nil
  show ?case by simp
next
  case (Cons p ps)
  show ?case
  proof (cases p)
    case NoMessage
    then show ?thesis using Cons by simp
  next
    case (MsgError eof)
    have "all_ok (print (if eof then ReachedEndOfPartition else PollError) s) = all_ok s"
      by (simp add: all_ok_def upd_simps)
    then show ?thesis
      using MsgError Cons[of "print (if eof then ReachedEndOfPartition else PollError) s"] by auto
  next
    case (Message m)
    obtain s1 where s1: "process_message disk m s = Returned s1" "all_ok s \<longrightarrow> all_ok s1"
      using process_message_reliable[OF assms] by blast
    then show ?thesis using Message Cons[of s1] by auto
  qed
qed

lemma save_keys_reliable:
  assumes "\<forall>n. disk n"
  shows "\<exists>s1. save_keys disk ks s = Returned s1 \<and> (all_ok s \<longrightarrow> all_ok s1)"
proof (induction ks arbitrary: s)
  case Nil
  show ?case by simp
next
  case (Cons k ks)
  obtain s1 where s1: "save_buffer disk ShutdownFlush k s = Returned s1" "all_ok s \<longrightarrow> all_ok s1"
    using save_buffer_reliable[OF assms] by blast
  then show ?case using Cons[of s1] by auto
qed

subsection \<open>Leaving the loop and shutting down\<close>

lemma interrupted_skip:
  "reading_key p = None \<Longrightarrow> pt \<noteq> BeforeErrorPrint \<Longrightarrow> interrupted_at disk pt p s = None"
  by (auto simp: reading_key_def interrupted_at_def split: option.splits json.splits if_splits)

lemma interrupted_ingest:
  assumes "reading_key p = Some k" "pt \<noteq> BeforeErrorPrint"
  shows "\<exists>d. p = Some d \<and> interrupted_at disk pt p s =
     (if pt = AfterCreate then Some (if getitem s k = None then setitem k [] s else s)
      else if pt = AfterAppend then Some (setitem k (buf k s @ [d]) s)
      else if length (buf k s @ [d]) \<ge> buffer_size s
           then save_buffer_interrupted disk SizeTriggered pt k (setitem k (buf k s @ [d]) s)
           else None)"
  using assms
  by (auto simp: reading_key_def interrupted_at_def buf_def upd_simps setitem_twice Let_def
           split: option.splits json.splits if_splits)

lemma save_buffer_interrupted_cases:
  assumes "save_buffer_interrupted disk t pt k s = Some s3"
  obtains rows where "getitem s k = Some rows" "rows \<noteq> []"
    and "pt = AfterToCsv \<or> pt = AfterSavedPrint \<or> pt = AfterClear"
    and "pt = AfterToCsv \<Longrightarrow>
           s3 = s\<lparr>to_csv_calls := to_csv_calls s @
                  [\<lparr>csv_key = k, csv_rows = rows, csv_ok = True, csv_trigger = t\<rparr>]\<rparr>"
    and "pt = AfterSavedPrint \<Longrightarrow>
           s3 = print (SavedRecords (length rows) k)
                  (s\<lparr>to_csv_calls := to_csv_calls s @
                      [\<lparr>csv_key = k, csv_rows = rows, csv_ok = True, csv_trigger = t\<rparr>]\<rparr>)"
    and "pt = AfterClear \<Longrightarrow>
           s3 = setitem k [] (print (SavedRecords (length rows) k)
                  (s\<lparr>to_csv_calls := to_csv_calls s @
                      [\<lparr>csv_key = k, csv_rows = rows, csv_ok = True, csv_trigger = t\<rparr>]\<rparr>))"
  using assms
  by (auto simp: save_buffer_interrupted_def Let_def split: option.splits if_splits)

lemma save_buffer_interrupted_inv:
  assumes "save_buffer_interrupted disk t pt k s = Some s3"
  shows "persisted k' s3 @ buf k' s3 =
           persisted k' s @ buf k' s @
           (if (pt = AfterToCsv \<or> pt = AfterSavedPrint) \<and> k' = k then buf k' s3 else [])"
  using assms
  by (rule save_buffer_interrupted_cases)
     (auto simp: persisted_def buf_def rows_of_def upd_simps)

lemma interrupted_error_inv:
  assumes "interrupted_at disk BeforeErrorPrint p s = Some s3"
  shows "persisted k s3 @ buf k s3 = persisted k s @ buf k s @ ingested k [Message p]"
proof -
  from assms obtain e where body: "process_body disk p s = Raised e s3"
    by (auto simp: interrupted_at_def split: outcome.splits)
  then have "state_of (process_message disk p s) = print (ErrorProcessingMessage e) s3"
    by (simp add: state_of_process_message)
  then show ?thesis
    using process_message_inv[of k disk p s] by (simp add: buf_print persisted_print)
qed

lemma ingested_single:
  "ingested k [Message p] = (case p of None \<Rightarrow> [] | Some d \<Rightarrow> if reading_key p = Some k then [d] else [])"
  by (cases p) simp_all

lemma interrupted_inv:
  assumes "interrupted_at disk pt p s = Some s3"
  shows "persisted k' s3 @ buf k' s3 =
           persisted k' s @ buf k' s @
           (if pt = AfterCreate then [] else ingested k' [Message p]) @
           (if (pt = AfterToCsv \<or> pt = AfterSavedPrint) \<and> reading_key p = Some k'
            then buf k' s3 else [])"
proof (cases "pt = BeforeErrorPrint")
  case True
  then show ?thesis using interrupted_error_inv[of disk p s s3 k'] assms by simp
next
  case False
  show ?thesis
  proof (cases "reading_key p")
    case None
    then show ?thesis using interrupted_skip[OF None False, of disk s] assms by simp
  next
    case (Some k)
    from interrupted_ingest[OF Some False, of disk s] obtain d where p: "p = Some d"
      and ia: "interrupted_at disk pt p s =
     (if pt = AfterCreate then Some (if getitem s k = None then setitem k [] s else s)
      else if pt = AfterAppend then Some (setitem k (buf k s @ [d]) s)
      else if length (buf k s @ [d]) \<ge> buffer_size s
           then save_buffer_interrupted disk SizeTriggered pt k (setitem k (buf k s @ [d]) s)
           else None)" by blast
    let ?s2 = "setitem k (buf k s @ [d]) s"
    have s2: "persisted k' ?s2 @ buf k' ?s2 = persisted k' s @ buf k' s @ ingested k' [Message p]"
      using Some p by (auto simp: buf_setitem persisted_setitem)
    consider "pt = AfterCreate" | "pt = AfterAppend"
      | "pt \<noteq> AfterCreate" "pt \<noteq> AfterAppend" by blast
    then show ?thesis
    proof cases
      case 1
      then have "s3 = (if getitem s k = None then setitem k [] s else s)" using ia assms by simp
      then show ?thesis using 1 by (auto simp: buf_def persisted_def upd_simps)
    next
      case 2
      then have "s3 = ?s2" using ia assms by simp
      then show ?thesis using 2 s2 by simp
    next
      case 3
      then have sv: "save_buffer_interrupted disk SizeTriggered pt k ?s2 = Some s3"
        using ia assms by (simp split: if_splits)
      from save_buffer_interrupted_inv[OF sv, of k'] s2 3 Some
      show ?thesis by auto
    qed
  qed
qed

lemma ingested_append: "ingested k (ps @ qs) = ingested k ps @ ingested k qs"
proof (induction ps)
  case Nil
  show ?case by simp
next
  case (Cons p ps)
  show ?case
    using ingested_Cons[of k p "ps @ qs"] ingested_Cons[of k p ps] Cons by simp
qed

lemma finally_clause_persisted:
  assumes "finally_clause disk s = Returned s'"
  shows "persisted k s' = persisted k s @ buf k s"
proof -
  from assms obtain s2 where s2: "save_all_buffers disk s = Returned s2"
    and s': "s' = s2\<lparr>closed := True, running := False\<rparr>"
    using finally_clause_Returned by blast
  have "persisted k s2 @ buf k s2 = persisted k s @ buf k s"
    using save_keys_inv[of k disk "map fst (data_buffer s)" s] s2
    by (simp add: save_all_buffers_def)
  moreover have "buf k s2 = []" using s2 by (rule save_all_buffers_empties)
  ultimately show ?thesis by (simp add: s' persisted_def)
qed

lemma finally_clause_made_by:
  assumes "finally_clause disk s = Returned s'"
  shows "made_by ShutdownFlush s s'"
proof -
  from assms obtain s2 where s2: "save_all_buffers disk s = Returned s2"
    and s': "s' = s2\<lparr>closed := True, running := False\<rparr>"
    using finally_clause_Returned by blast
  have "made_by ShutdownFlush s s2"
    using save_keys_made_by[of s disk "map fst (data_buffer s)"] s2
    by (simp add: save_all_buffers_def)
  then show ?thesis by (simp add: s' made_by_def)
qed

lemma start_consuming_Returned:
  assumes "start_consuming disk polls how s = Returned s'"
  shows "finally_clause disk (loop_left disk how (state_of (poll_loop disk polls (s\<lparr>running := True\<rparr>))))
           = Returned s'"
proof -
  obtain s1 where "poll_loop disk polls (s\<lparr>running := True\<rparr>) = Returned s1"
    using poll_loop_returns by blast
  then show ?thesis using assms by (simp add: start_consuming_def)
qed

lemma loop_state_inv:
  "persisted k (state_of (poll_loop disk polls (init\<lparr>buffer_size := C, running := True\<rparr>))) @
   buf k (state_of (poll_loop disk polls (init\<lparr>buffer_size := C, running := True\<rparr>)))
     = ingested k polls"
  using poll_loop_inv[of k disk polls "init\<lparr>buffer_size := C, running := True\<rparr>"]
  by (simp add: persisted_def buf_def getitem_def init_def rows_of_def)

lemma persisted_after_clean_shutdown:
  assumes "start_consuming disk polls how (init\<lparr>buffer_size := C\<rparr>) = Returned s'"
  shows "case how of
           StopRequested \<Rightarrow> persisted k s' = ingested k polls
         | KeyboardInterrupt \<Rightarrow> persisted k s' = ingested k polls
         | KeyboardInterruptAt pt p \<Rightarrow>
             (case interrupted_at disk pt p
                     (state_of (poll_loop disk polls (init\<lparr>buffer_size := C, running := True\<rparr>))) of
                None \<Rightarrow> persisted k s' = ingested k (polls @ [Message p])
              | Some s3 \<Rightarrow>
                  persisted k s' =
                    (if pt = AfterCreate then ingested k polls
                     else ingested k (polls @ [Message p])) @
                    (if (pt = AfterToCsv \<or> pt = AfterSavedPrint) \<and> reading_key p = Some k
                     then buf k s3 else []))"
proof -
  define s1 where "s1 = state_of (poll_loop disk polls (init\<lparr>buffer_size := C, running := True\<rparr>))"
  have fin: "finally_clause disk (loop_left disk how s1) = Returned s'"
    using start_consuming_Returned[OF assms] by (simp add: s1_def)
  have p: "persisted k s' = persisted k (loop_left disk how s1) @ buf k (loop_left disk how s1)"
    using fin by (rule finally_clause_persisted)
  have mid: "persisted k s1 @ buf k s1 = ingested k polls"
    unfolding s1_def by (rule loop_state_inv)
  show ?thesis
  proof (cases how)
    case KeyboardInterrupt
    then show ?thesis using p mid by (simp add: loop_left_def buf_print persisted_print)
  next
    case StopRequested
    then show ?thesis using p mid by (simp add: loop_left_def)
  next
    case (KeyboardInterruptAt pt m)
    show ?thesis
    proof (cases "interrupted_at disk pt m s1")
      case None
      have "persisted k (state_of (process_message disk m s1)) @ buf k (state_of (process_message disk m s1))
              = ingested k polls @ ingested k [Message m]"
        using process_message_inv[of k disk m s1] mid by simp
      then show ?thesis
        using p None KeyboardInterruptAt
        by (simp add: loop_left_def buf_print persisted_print ingested_append flip: s1_def)
    next
      case (Some s3)
      have "persisted k s3 @ buf k s3 =
              ingested k polls @
              (if pt = AfterCreate then [] else ingested k [Message m]) @
              (if (pt = AfterToCsv \<or> pt = AfterSavedPrint) \<and> reading_key m = Some k
               then buf k s3 else [])"
        using interrupted_inv[OF Some, of k] mid by simp
      then show ?thesis
        using p Some KeyboardInterruptAt
        by (simp add: loop_left_def buf_print persisted_print ingested_append flip: s1_def)
    qed
  qed
qed

lemma interrupted_reliable:
  assumes "\<forall>n. disk n" "all_ok s" "interrupted_at disk pt p s = Some s3"
  shows "all_ok s3"
proof (cases "pt = BeforeErrorPrint")
  case True
  with assms(3) obtain e where "process_body disk p s = Raised e s3"
    by (auto simp: interrupted_at_def split: outcome.splits)
  then have "state_of (process_message disk p s) = print (ErrorProcessingMessage e) s3"
    by (simp add: state_of_process_message)
  moreover have "all_ok (state_of (process_message disk p s))"
    using process_message_reliable[OF assms(1), of p s] assms(2) by auto
  ultimately show ?thesis by (simp add: all_ok_def upd_simps)
next
  case False
  show ?thesis
  proof (cases "reading_key p")
    case None
    then show ?thesis using interrupted_skip[OF None False, of disk s] assms(3) by simp
  next
    case (Some k)
    from interrupted_ingest[OF Some False, of disk s] obtain d where
      ia: "interrupted_at disk pt p s =
     (if pt = AfterCreate then Some (if getitem s k = None then setitem k [] s else s)
      else if pt = AfterAppend then Some (setitem k (buf k s @ [d]) s)
      else if length (buf k s @ [d]) \<ge> buffer_size s
           then save_buffer_interrupted disk SizeTriggered pt k (setitem k (buf k s @ [d]) s)
           else None)" by blast
    let ?s2 = "setitem k (buf k s @ [d]) s"
    consider "pt = AfterCreate" | "pt = AfterAppend"
      | "pt \<noteq> AfterCreate" "pt \<noteq> AfterAppend" by blast
    then show ?thesis
    proof cases
      case 1
      then show ?thesis using ia assms(2,3) by (auto simp: all_ok_def upd_simps)
    next
      case 2
      then show ?thesis using ia assms(2,3) by (auto simp: all_ok_def upd_simps)
    next
      case 3
      then have sv: "save_buffer_interrupted disk SizeTriggered pt k ?s2 = Some s3"
        using ia assms(3) by (simp split: if_splits)
      have "all_ok ?s2" using assms(2) by (simp add: all_ok_def upd_simps)
      then show ?thesis
        using sv by (rule_tac save_buffer_interrupted_cases[OF sv]) (auto simp: all_ok_def upd_simps)
    qed
  qed
qed

lemma start_consuming_reliable:
  assumes "\<forall>n. disk n" "all_ok s"
  shows "\<exists>s'. start_consuming disk polls how s = Returned s' \<and> all_ok s'"
proof -
  have ok0: "all_ok (s\<lparr>running := True\<rparr>)" using assms(2) by (simp add: all_ok_def)
  obtain s1 where s1: "poll_loop disk polls (s\<lparr>running := True\<rparr>) = Returned s1" "all_ok s1"
    using poll_loop_reliable[OF assms(1), of polls "s\<lparr>running := True\<rparr>"] ok0 by blast
  have ok1: "all_ok (loop_left disk how s1)"
  proof (cases how)
    case KeyboardInterrupt
    then show ?thesis using s1(2) by (simp add: loop_left_def all_ok_def upd_simps)
  next
    case StopRequested
    then show ?thesis using s1(2) by (simp add: loop_left_def)
  next
    case (KeyboardInterruptAt pt m)
    show ?thesis
    proof (cases "interrupted_at disk pt m s1")
      case None
      have "all_ok (state_of (process_message disk m s1))"
        using process_message_reliable[OF assms(1), of m s1] s1(2) by auto
      then show ?thesis using None KeyboardInterruptAt by (simp add: loop_left_def all_ok_def upd_simps)
    next
      case (Some s3)
      have "all_ok s3" using assms(1) s1(2) Some by (rule interrupted_reliable)
      then show ?thesis using Some KeyboardInterruptAt by (simp add: loop_left_def all_ok_def upd_simps)
    qed
  qed
  obtain s2 where s2: "save_keys disk (map fst (data_buffer (loop_left disk how s1))) (loop_left disk how s1) = Returned s2"
    "all_ok s2"
    using save_keys_reliable[OF assms(1), of "map fst (data_buffer (loop_left disk how s1))" "loop_left disk how s1"] ok1
    by blast
  have "start_consuming disk polls how s = Returned (s2\<lparr>closed := True, running := False\<rparr>)"
    using s1(1) s2(1) by (simp add: start_consuming_def finally_clause_def save_all_buffers_def)
  moreover have "all_ok (s2\<lparr>closed := True, running := False\<rparr>)"
    using s2(2) by (simp add: all_ok_def)
  ultimately show ?thesis by blast
qed

lemma interrupted_made_by:
  assumes "interrupted_at disk pt p s = Some s3"
  shows "made_by SizeTriggered s s3"
proof (cases "pt = BeforeErrorPrint")
  case True
  with assms obtain e where b: "process_body disk p s = Raised e s3"
    by (auto simp: interrupted_at_def split: outcome.splits)
  show ?thesis using process_body_made_by[of s disk p] b by simp
next
  case False
  show ?thesis
  proof (cases "reading_key p")
    case None
    then show ?thesis using interrupted_skip[OF None False, of disk s] assms by simp
  next
    case (Some k)
    from interrupted_ingest[OF Some False, of disk s] obtain d where
      ia: "interrupted_at disk pt p s =
     (if pt = AfterCreate then Some (if getitem s k = None then setitem k [] s else s)
      else if pt = AfterAppend then Some (setitem k (buf k s @ [d]) s)
      else if length (buf k s @ [d]) \<ge> buffer_size s
           then save_buffer_interrupted disk SizeTriggered pt k (setitem k (buf k s @ [d]) s)
           else None)" by blast
    let ?s2 = "setitem k (buf k s @ [d]) s"
    consider "pt = AfterCreate" | "pt = AfterAppend"
      | "pt \<noteq> AfterCreate" "pt \<noteq> AfterAppend" by blast
    then show ?thesis
    proof cases
      case 1
      then show ?thesis using ia assms by (auto simp: made_by_def upd_simps)
    next
      case 2
      then show ?thesis using ia assms by (auto simp: made_by_def upd_simps)
    next
      case 3
      then have sv: "save_buffer_interrupted disk SizeTriggered pt k ?s2 = Some s3"
        using ia assms by (simp split: if_splits)
      show ?thesis
        by (rule save_buffer_interrupted_cases[OF sv]) (auto simp: made_by_def upd_simps)
    qed
  qed
qed

lemma loop_left_made_by: "made_by SizeTriggered s (loop_left disk how s)"
proof (cases how)
  case KeyboardInterrupt
  then show ?thesis by (simp add: loop_left_def made_by_def upd_simps)
next
  case StopRequested
  then show ?thesis by (simp add: loop_left_def made_by_refl)
next
  case (KeyboardInterruptAt pt m)
  show ?thesis
  proof (cases "interrupted_at disk pt m s")
    case None
    then show ?thesis
      using process_message_made_by[of s disk m] KeyboardInterruptAt
      by (simp add: loop_left_def made_by_def upd_simps)
  next
    case (Some s3)
    then show ?thesis
      using interrupted_made_by[OF Some] KeyboardInterruptAt
      by (simp add: loop_left_def made_by_def upd_simps)
  qed
qed

lemma split_after_shutdown:
  assumes "start_consuming disk polls how (init\<lparr>buffer_size := C\<rparr>) = Returned s'"
  shows "persisted_by SizeTriggered k s' @ persisted_by ShutdownFlush k s' = persisted k s'"
proof -
  define s0 where "s0 = init\<lparr>buffer_size := C, running := True\<rparr>"
  define s1 where "s1 = state_of (poll_loop disk polls s0)"
  have fin: "finally_clause disk (loop_left disk how s1) = Returned s'"
    using start_consuming_Returned[OF assms(1)] by (simp add: s1_def s0_def)
  have "made_by SizeTriggered s0 s1" unfolding s1_def by (rule poll_loop_made_by)
  moreover have "made_by SizeTriggered s1 (loop_left disk how s1)" by (rule loop_left_made_by)
  ultimately have m1: "made_by SizeTriggered s0 (loop_left disk how s1)" by (rule made_by_trans)
  have m2: "made_by ShutdownFlush (loop_left disk how s1) s'"
    using fin by (rule finally_clause_made_by)
  show ?thesis using m1 _ m2 by (rule split_by_trigger) (simp add: s0_def init_def)
qed


section \<open>The ingestion claims\<close>

text \<open>
  C1, as the claim states it, fails. With a capacity of two, the second reading for
  \<^verbatim>\<open>EQ-1\<close> fills the buffer and \<^verbatim>\<open>_save_buffer\<close> writes both rows (line 94). A Ctrl-C that
  arrives before the buffer is cleared (line 98) is not caught at line 79; the
  \<^verbatim>\<open>finally\<close> clause finds the two rows still buffered and writes them again. The run shuts
  down cleanly, no write fails, and each of the two readings has been written twice: once
  by the size-triggered flush and once by the shutdown flush-all.
\<close>

theorem interrupted_flush_counterexample:
  "start_consuming (\<lambda>n. True) [Message (Some (example_reading ''EQ-1'' 1))]
       (KeyboardInterruptAt AfterToCsv (Some (example_reading ''EQ-1'' 2)))
       (init\<lparr>buffer_size := 2\<rparr>)
     = Returned (state_of
         (start_consuming (\<lambda>n. True) [Message (Some (example_reading ''EQ-1'' 1))]
            (KeyboardInterruptAt AfterToCsv (Some (example_reading ''EQ-1'' 2)))
            (init\<lparr>buffer_size := 2\<rparr>))) \<and>
   all_ok (state_of
         (start_consuming (\<lambda>n. True) [Message (Some (example_reading ''EQ-1'' 1))]
            (KeyboardInterruptAt AfterToCsv (Some (example_reading ''EQ-1'' 2)))
            (init\<lparr>buffer_size := 2\<rparr>))) \<and>
   ingested (KStr ''EQ-1'')
       [Message (Some (example_reading ''EQ-1'' 1)), Message (Some (example_reading ''EQ-1'' 2))]
     = [example_reading ''EQ-1'' 1, example_reading ''EQ-1'' 2] \<and>
   persisted (KStr ''EQ-1'') (state_of
         (start_consuming (\<lambda>n. True) [Message (Some (example_reading ''EQ-1'' 1))]
            (KeyboardInterruptAt AfterToCsv (Some (example_reading ''EQ-1'' 2)))
            (init\<lparr>buffer_size := 2\<rparr>)))
     = [example_reading ''EQ-1'' 1, example_reading ''EQ-1'' 2,
        example_reading ''EQ-1'' 1, example_reading ''EQ-1'' 2] \<and>
   persisted_by SizeTriggered (KStr ''EQ-1'') (state_of
         (start_consuming (\<lambda>n. True) [Message (Some (example_reading ''EQ-1'' 1))]
            (KeyboardInterruptAt AfterToCsv (Some (example_reading ''EQ-1'' 2)))
            (init\<lparr>buffer_size := 2\<rparr>)))
     = [example_reading ''EQ-1'' 1, example_reading ''EQ-1'' 2] \<and>
   persisted_by ShutdownFlush (KStr ''EQ-1'') (state_of
         (start_consuming (\<lambda>n. True) [Message (Some (example_reading ''EQ-1'' 1))]
            (KeyboardInterruptAt AfterToCsv (Some (example_reading ''EQ-1'' 2)))
            (init\<lparr>buffer_size := 2\<rparr>)))
     = [example_reading ''EQ-1'' 1, example_reading ''EQ-1'' 2]"
  by (simp add: run_simps loop_left_def interrupted_at_def save_buffer_interrupted_def
        all_ok_def)

text \<open>
  C1, amended. Take any poll sequence, any capacity, any behaviour of the disk and any way
  of leaving the loop, and let the run shut down cleanly (the final flush-all returns, so
  \<open>start_consuming\<close> returns). For every equipment key, the rows written successfully for
  the key are those written by the size-triggered flushes followed by those written by the
  shutdown flush-all. When the loop is left by \<^verbatim>\<open>stop_consuming\<close> or by a Ctrl-C between two
  messages, these rows are exactly the readings buffered for the key, in arrival order:
  none is missing, none is written twice. The same holds, with the message in hand counted
  as received, for a Ctrl-C inside the processing of a message, save in two places. A
  Ctrl-C before the append at line 71 loses the message in hand: it is not buffered and
  not written. A Ctrl-C after the write at line 94 and before the clear at line 98 leaves
  the written rows in the buffer, and the shutdown flush-all writes that buffer a second
  time. On a disk where no write fails the run always shuts down cleanly, and every call of
  \<^verbatim>\<open>to_csv\<close> is then a successful one.
\<close>

theorem persisted_once_unless_flush_interrupted:
  "(start_consuming disk polls how (init\<lparr>buffer_size := C\<rparr>) = Returned s' \<longrightarrow>
      persisted_by SizeTriggered k s' @ persisted_by ShutdownFlush k s' = persisted k s' \<and>
      (case how of
         StopRequested \<Rightarrow> persisted k s' = ingested k polls
       | KeyboardInterrupt \<Rightarrow> persisted k s' = ingested k polls
       | KeyboardInterruptAt pt p \<Rightarrow>
           (case interrupted_at disk pt p
                   (state_of (poll_loop disk polls (init\<lparr>buffer_size := C, running := True\<rparr>))) of
              None \<Rightarrow> persisted k s' = ingested k (polls @ [Message p])
            | Some s3 \<Rightarrow>
                persisted k s' =
                  (if pt = AfterCreate then ingested k polls
                   else ingested k (polls @ [Message p])) @
                  (if (pt = AfterToCsv \<or> pt = AfterSavedPrint) \<and> reading_key p = Some k
                   then buf k s3 else [])))) \<and>
   ((\<forall>n. disk n) \<longrightarrow>
      (\<exists>s''. start_consuming disk polls how (init\<lparr>buffer_size := C\<rparr>) = Returned s'' \<and>
             all_ok s''))"
proof (intro conjI impI)
  assume run: "start_consuming disk polls how (init\<lparr>buffer_size := C\<rparr>) = Returned s'"
  then show "persisted_by SizeTriggered k s' @ persisted_by ShutdownFlush k s' = persisted k s'"
    by (rule split_after_shutdown)
  from run show "case how of
         StopRequested \<Rightarrow> persisted k s' = ingested k polls
       | KeyboardInterrupt \<Rightarrow> persisted k s' = ingested k polls
       | KeyboardInterruptAt pt p \<Rightarrow>
           (case interrupted_at disk pt p
                   (state_of (poll_loop disk polls (init\<lparr>buffer_size := C, running := True\<rparr>))) of
              None \<Rightarrow> persisted k s' = ingested k (polls @ [Message p])
            | Some s3 \<Rightarrow>
                persisted k s' =
                  (if pt = AfterCreate then ingested k polls
                   else ingested k (polls @ [Message p])) @
                  (if (pt = AfterToCsv \<or> pt = AfterSavedPrint) \<and> reading_key p = Some k
                   then buf k s3 else []))"
    by (rule persisted_after_clean_shutdown)
next
  assume "\<forall>n. disk n"
  moreover have "all_ok (init\<lparr>buffer_size := C\<rparr>)" by (simp add: all_ok_def init_def)
  ultimately show "\<exists>s''. start_consuming disk polls how (init\<lparr>buffer_size := C\<rparr>) = Returned s'' \<and>
             all_ok s''"
    by (rule start_consuming_reliable)
qed

theorem persisted_once_unless_flush_interrupted_witness:
  "(\<exists>s'. start_consuming (\<lambda>n. True) example_polls KeyboardInterrupt (init\<lparr>buffer_size := 2\<rparr>)
            = Returned s' \<and>
          all_ok s' \<and>
          persisted (KStr ''EQ-1'') s' =
            [example_reading ''EQ-1'' 1, example_reading ''EQ-1'' 2, example_reading ''EQ-1'' 3] \<and>
          persisted_by SizeTriggered (KStr ''EQ-1'') s' @ persisted_by ShutdownFlush (KStr ''EQ-1'') s' =
            [example_reading ''EQ-1'' 1, example_reading ''EQ-1'' 2, example_reading ''EQ-1'' 3]) \<and>
   (\<exists>s'. start_consuming (\<lambda>n. True) example_polls
            (KeyboardInterruptAt AfterAppend (Some (example_reading ''EQ-1'' 4)))
            (init\<lparr>buffer_size := 2\<rparr>) = Returned s' \<and>
          all_ok s' \<and>
          persisted (KStr ''EQ-1'') s' =
            [example_reading ''EQ-1'' 1, example_reading ''EQ-1'' 2, example_reading ''EQ-1'' 3,
             example_reading ''EQ-1'' 4])"
proof -
  let ?i = "KeyboardInterruptAt AfterAppend (Some (example_reading ''EQ-1'' 4))"
  have d: "\<forall>n. (\<lambda>n::nat. True) n" by simp
  from d persisted_once_unless_flush_interrupted[of "\<lambda>n. True" example_polls KeyboardInterrupt 2]
  obtain s' where run:
    "start_consuming (\<lambda>n. True) example_polls KeyboardInterrupt (init\<lparr>buffer_size := 2\<rparr>) = Returned s'"
    and ok: "all_ok s'"
    by blast
  from d persisted_once_unless_flush_interrupted[of "\<lambda>n. True" example_polls ?i 2]
  obtain t' where run':
    "start_consuming (\<lambda>n. True) example_polls ?i (init\<lparr>buffer_size := 2\<rparr>) = Returned t'"
    and ok': "all_ok t'"
    by blast
  have a: "ingested (KStr ''EQ-1'') example_polls =
      [example_reading ''EQ-1'' 1, example_reading ''EQ-1'' 2, example_reading ''EQ-1'' 3]"
    by (simp add: example_polls_def reading_key_def example_reading_def dict_get_def)
  have b: "ingested (KStr ''EQ-1'') (example_polls @ [Message (Some (example_reading ''EQ-1'' 4))]) =
      [example_reading ''EQ-1'' 1, example_reading ''EQ-1'' 2, example_reading ''EQ-1'' 3,
       example_reading ''EQ-1'' 4]"
    by (simp add: example_polls_def reading_key_def example_reading_def dict_get_def)
  have "persisted (KStr ''EQ-1'') s' = ingested (KStr ''EQ-1'') example_polls \<and>
        persisted_by SizeTriggered (KStr ''EQ-1'') s' @ persisted_by ShutdownFlush (KStr ''EQ-1'') s' =
          ingested (KStr ''EQ-1'') example_polls"
    using persisted_once_unless_flush_interrupted[of "\<lambda>n. True" example_polls KeyboardInterrupt 2 s' "KStr ''EQ-1''"] run
    by simp
  moreover have "persisted (KStr ''EQ-1'') t' =
        ingested (KStr ''EQ-1'') (example_polls @ [Message (Some (example_reading ''EQ-1'' 4))])"
    using persisted_once_unless_flush_interrupted[of "\<lambda>n. True" example_polls ?i 2 t' "KStr ''EQ-1''"] run'
    by (simp split: option.splits)
  ultimately show ?thesis using run ok run' ok' a b by simp
qed


text \<open>
  C3. Start from a consumer whose buffer for key \<open>k\<close> is absent or empty and whose capacity
  is positive, and feed it readings of key \<open>k\<close> only.
  With exactly as many readings as the capacity, \<^verbatim>\<open>to_csv\<close> is called exactly once, from the
  size trigger, with exactly those readings in order, and the key stays in the
  dictionary (with an empty buffer when the write succeeded).
  With fewer readings nothing is written while they arrive; a flush-all that returns
  then writes for \<open>k\<close> exactly one record holding exactly those readings in order (none
  when there was no reading), leaves the buffer of \<open>k\<close> empty and keeps the key.
  Saving the empty or absent buffer returns the state unchanged and does not raise.
\<close>

theorem buffer_manager_flush:
  assumes keyed: "list_all (\<lambda>d. reading_key (Some d) = Some k) ds"
    and empty: "buf k s = []"
    and pos: "0 < buffer_size s"
  shows "(length ds = buffer_size s \<longrightarrow>
           (\<exists>s'. poll_loop disk (map (\<lambda>d. Message (Some d)) ds) s = Returned s' \<and>
              new_calls s s' =
                [\<lparr>csv_key = k, csv_rows = ds, csv_ok = disk (length (to_csv_calls s)),
                  csv_trigger = SizeTriggered\<rparr>] \<and>
              getitem s' k = Some (if disk (length (to_csv_calls s)) then [] else ds))) \<and>
         (length ds < buffer_size s \<longrightarrow>
           (\<exists>s1. poll_loop disk (map (\<lambda>d. Message (Some d)) ds) s = Returned s1 \<and>
              new_calls s s1 = [] \<and> buf k s1 = ds \<and>
              (\<forall>s2. save_all_buffers disk s1 = Returned s2 \<longrightarrow>
                 filter (\<lambda>c. csv_key c = k) (new_calls s s2) =
                   (if ds = [] then []
                    else [\<lparr>csv_key = k, csv_rows = ds, csv_ok = True, csv_trigger = ShutdownFlush\<rparr>]) \<and>
                 buf k s2 = [] \<and> (ds \<noteq> [] \<longrightarrow> getitem s2 k = Some [])))) \<and>
         save_buffer disk t k s = Returned s"
  using buffer_manager_parts[OF assms] by blast

theorem buffer_manager_flush_witness:
  "list_all (\<lambda>d. reading_key (Some d) = Some (KStr ''EQ-1'')) example_rows \<and>
   buf (KStr ''EQ-1'') init = [] \<and> 0 < buffer_size init \<and>
   length example_rows = buffer_size (init\<lparr>buffer_size := 3\<rparr>) \<and>
   length example_rows < buffer_size init \<and>
   new_calls (init\<lparr>buffer_size := 3\<rparr>)
     (state_of (poll_loop (\<lambda>n. True) (map (\<lambda>d. Message (Some d)) example_rows) (init\<lparr>buffer_size := 3\<rparr>))) =
       [\<lparr>csv_key = KStr ''EQ-1'', csv_rows = example_rows, csv_ok = True, csv_trigger = SizeTriggered\<rparr>] \<and>
   (\<exists>s1 s2. poll_loop (\<lambda>n. True) (map (\<lambda>d. Message (Some d)) example_rows) init = Returned s1 \<and>
      save_all_buffers (\<lambda>n. True) s1 = Returned s2 \<and>
      new_calls init s2 =
        [\<lparr>csv_key = KStr ''EQ-1'', csv_rows = example_rows, csv_ok = True, csv_trigger = ShutdownFlush\<rparr>] \<and>
      data_buffer s2 = [(KStr ''EQ-1'', [])])"
proof -
  let ?k = "KStr ''EQ-1''"
  have keyed: "list_all (\<lambda>d. reading_key (Some d) = Some ?k) example_rows"
    by (simp add: example_rows_def reading_key_def example_reading_def dict_get_def)
  have e3: "buf ?k (init\<lparr>buffer_size := 3\<rparr>) = []" and e: "buf ?k init = []"
    by (simp_all add: buf_def getitem_def init_def)
  have p3: "0 < buffer_size (init\<lparr>buffer_size := 3\<rparr>)" and p: "0 < buffer_size init"
    by (simp_all add: init_def)
  have l3: "length example_rows = buffer_size (init\<lparr>buffer_size := 3\<rparr>)"
    and l: "length example_rows < buffer_size init"
    by (simp_all add: example_rows_def init_def)
  note A = buffer_manager_flush[OF keyed e3 p3, of "\<lambda>n. True" ShutdownFlush]
  note B = buffer_manager_flush[OF keyed e p, of "\<lambda>n. True" ShutdownFlush]
  from A l3 have a: "new_calls (init\<lparr>buffer_size := 3\<rparr>)
     (state_of (poll_loop (\<lambda>n. True) (map (\<lambda>d. Message (Some d)) example_rows) (init\<lparr>buffer_size := 3\<rparr>))) =
       [\<lparr>csv_key = KStr ''EQ-1'', csv_rows = example_rows, csv_ok = True, csv_trigger = SizeTriggered\<rparr>]"
    by auto
  from B l obtain s1 where s1: "poll_loop (\<lambda>n. True) (map (\<lambda>d. Message (Some d)) example_rows) init = Returned s1"
    and fl: "\<forall>s2. save_all_buffers (\<lambda>n. True) s1 = Returned s2 \<longrightarrow>
                 filter (\<lambda>c. csv_key c = ?k) (new_calls init s2) =
                   (if example_rows = [] then []
                    else [\<lparr>csv_key = ?k, csv_rows = example_rows, csv_ok = True, csv_trigger = ShutdownFlush\<rparr>]) \<and>
                 buf ?k s2 = [] \<and> (example_rows \<noteq> [] \<longrightarrow> getitem s2 ?k = Some [])"
    by auto
  have s1_eq: "data_buffer s1 = [(?k, example_rows)]" "to_csv_calls s1 = []"
    using s1 by (auto simp: run_simps example_rows_def)
  obtain s2 where s2: "save_all_buffers (\<lambda>n. True) s1 = Returned s2"
    by (simp add: s1_eq save_all_buffers_def save_buffer_def getitem_def example_rows_def Let_def)
  have d2: "data_buffer s2 = [(?k, [])]" "to_csv_calls s2 = [\<lparr>csv_key = KStr ''EQ-1'', csv_rows = example_rows, csv_ok = True, csv_trigger = ShutdownFlush\<rparr>]"
    using s2 by (auto simp: s1_eq save_all_buffers_def save_buffer_def getitem_def setitem_def print_def example_rows_def Let_def)
  have "new_calls init s2 = [\<lparr>csv_key = KStr ''EQ-1'', csv_rows = example_rows, csv_ok = True, csv_trigger = ShutdownFlush\<rparr>]"
    using fl s2 d2 by (simp add: new_calls_def init_def)
  then show ?thesis using keyed e p l3 l a s1 s2 d2 by blast
qed

text \<open>
  C5, as the claim states it, fails: an object without \<^verbatim>\<open>equipment_id\<close> is discarded
  without a line being printed. The state, \<open>stdout\<close> included, is what it was.
\<close>

theorem silent_discard_counterexample:
  "lacks_equipment_id (Some (JObj [(''temperature'', JInt 70)])) \<and>
   process_message (\<lambda>n. True) (Some (JObj [(''temperature'', JInt 70)])) init = Returned init \<and>
   stdout (state_of (process_message (\<lambda>n. True) (Some (JObj [(''temperature'', JInt 70)])) init)) = []"
  by (simp add: lacks_equipment_id_def process_message_def process_body_def dict_get_def init_def)

text \<open>
  C5, amended. A payload that cannot be decoded, is not an object or is an object without
  \<^verbatim>\<open>equipment_id\<close> changes no buffer and causes no write, \<open>process_message\<close> returns
  (it does not raise), and the poll loop goes on with the next poll. An error line is
  printed for the undecodable payload and for the payload that is not an object; the
  object without the field is dropped silently.
\<close>

theorem malformed_message_discarded:
  assumes "lacks_equipment_id p"
  shows "\<exists>s'. process_message disk p s = Returned s' \<and>
           data_buffer s' = data_buffer s \<and> to_csv_calls s' = to_csv_calls s \<and>
           stdout s' = stdout s @
             (case p of
                None \<Rightarrow> [ErrorProcessingMessage DecodeError]
              | Some (JObj kvs) \<Rightarrow> []
              | Some _ \<Rightarrow> [ErrorProcessingMessage AttributeError]) \<and>
           poll_loop disk (Message p # ps) s = poll_loop disk ps s'"
  using assms
  by (auto simp: lacks_equipment_id_def process_message_def process_body_def print_def
           split: option.splits json.splits)

theorem malformed_message_discarded_witness:
  "lacks_equipment_id None \<and> lacks_equipment_id (Some (JObj [(''temperature'', JInt 70)])) \<and>
   poll_loop (\<lambda>n. True) [Message None, Message (Some (JObj [(''temperature'', JInt 70)]))] init =
     Returned (init\<lparr>stdout := [ErrorProcessingMessage DecodeError]\<rparr>)"
proof -
  let ?m = "Some (JObj [(''temperature'', JInt 70)])"
  have a: "lacks_equipment_id None" and b: "lacks_equipment_id ?m"
    by (simp_all add: lacks_equipment_id_def dict_get_def)
  from malformed_message_discarded[OF a, of "\<lambda>n. True" init "[Message ?m]"]
  obtain s1 where s1: "process_message (\<lambda>n. True) None init = Returned s1"
    and l1: "poll_loop (\<lambda>n. True) [Message None, Message ?m] init = poll_loop (\<lambda>n. True) [Message ?m] s1"
    by auto
  from malformed_message_discarded[OF b, of "\<lambda>n. True" s1 "[]"]
  obtain s2 where s2: "process_message (\<lambda>n. True) ?m s1 = Returned s2"
    and l2: "poll_loop (\<lambda>n. True) [Message ?m] s1 = poll_loop (\<lambda>n. True) [] s2"
    by auto
  have "s1 = init\<lparr>stdout := [ErrorProcessingMessage DecodeError]\<rparr>"
    using s1 by (simp add: process_message_def process_body_def print_def init_def)
  moreover have "s2 = s1"
    using s2 by (simp add: process_message_def process_body_def dict_get_def)
  ultimately show ?thesis using a b l1 l2 by simp
qed

text \<open>
  C10. Processing a message buffered under key \<open>k\<close>, and saving the buffer of \<open>k\<close> from
  either call site, whether the write succeeds or raises, leave the entry of every other
  key as it was; a message that is not buffered at all leaves the whole dictionary as
  it was.
\<close>

theorem other_buffers_unchanged:
  assumes "k' \<noteq> k"
  shows "(reading_key p = Some k \<longrightarrow>
            getitem (state_of (process_message disk p s)) k' = getitem s k') \<and>
         (reading_key p = None \<longrightarrow>
            data_buffer (state_of (process_message disk p s)) = data_buffer s) \<and>
         getitem (state_of (save_buffer disk t k s)) k' = getitem s k'"
proof (intro conjI impI)
  show "getitem (state_of (save_buffer disk t k s)) k' = getitem s k'"
    using assms by (rule save_buffer_frame)
next
  assume "reading_key p = None"
  then have "state_of (process_body disk p s) = s" by (rule process_body_skip)
  then show "data_buffer (state_of (process_message disk p s)) = data_buffer s"
    by (cases "process_body disk p s") (simp_all add: state_of_process_message print_def)
next
  assume rk: "reading_key p = Some k"
  from process_body_ingest[OF rk, of disk s] obtain d e where
    body: "process_body disk p s =
     (let s2 = setitem k (buf k s @ [d]) s
      in if length (buf k s @ [d]) \<ge> buffer_size s
         then (case save_buffer disk SizeTriggered k s2 of
                 Raised x s3 \<Rightarrow> Raised x s3
               | Returned s3 \<Rightarrow> Returned (print (ProcessedMessage e d) s3))
         else Returned (print (ProcessedMessage e d) s2))" by blast
  let ?s2 = "setitem k (buf k s @ [d]) s"
  have "getitem (state_of (save_buffer disk SizeTriggered k ?s2)) k' = getitem s k'"
    using assms save_buffer_frame[of k' k disk SizeTriggered ?s2] by (simp add: upd_simps)
  then show "getitem (state_of (process_message disk p s)) k' = getitem s k'"
    using assms
    by (cases "save_buffer disk SizeTriggered k ?s2")
       (auto simp: state_of_process_message body Let_def upd_simps)
qed

theorem other_buffers_unchanged_witness:
  "KStr ''EQ-2'' \<noteq> KStr ''EQ-1'' \<and>
   reading_key (Some (example_reading ''EQ-1'' 5)) = Some (KStr ''EQ-1'') \<and>
   getitem (state_of (process_message (\<lambda>n. True) (Some (example_reading ''EQ-1'' 5))
      (init\<lparr>data_buffer := [(KStr ''EQ-2'', [example_reading ''EQ-2'' 1]),
                              (KStr ''EQ-1'', [example_reading ''EQ-1'' 4])],
             buffer_size := 2\<rparr>))) (KStr ''EQ-2'') = Some [example_reading ''EQ-2'' 1] \<and>
   getitem (state_of (save_buffer (\<lambda>n. True) ShutdownFlush (KStr ''EQ-1'')
      (init\<lparr>data_buffer := [(KStr ''EQ-2'', [example_reading ''EQ-2'' 1]),
                              (KStr ''EQ-1'', [example_reading ''EQ-1'' 4])]\<rparr>))) (KStr ''EQ-2'')
     = Some [example_reading ''EQ-2'' 1]"
proof -
  have ne: "KStr ''EQ-2'' \<noteq> KStr ''EQ-1''" by simp
  have rk: "reading_key (Some (example_reading ''EQ-1'' 5)) = Some (KStr ''EQ-1'')"
    by (simp add: reading_key_def example_reading_def dict_get_def)
  have g: "getitem (init\<lparr>data_buffer := [(KStr ''EQ-2'', [example_reading ''EQ-2'' 1]),
                              (KStr ''EQ-1'', [example_reading ''EQ-1'' 4])], buffer_size := 2\<rparr>) (KStr ''EQ-2'')
          = Some [example_reading ''EQ-2'' 1]"
     "getitem (init\<lparr>data_buffer := [(KStr ''EQ-2'', [example_reading ''EQ-2'' 1]),
                              (KStr ''EQ-1'', [example_reading ''EQ-1'' 4])]\<rparr>) (KStr ''EQ-2'')
          = Some [example_reading ''EQ-2'' 1]"
    by (simp_all add: getitem_def)
  show ?thesis
    using other_buffers_unchanged[OF ne, of "Some (example_reading ''EQ-1'' 5)" "\<lambda>n. True"
        "init\<lparr>data_buffer := [(KStr ''EQ-2'', [example_reading ''EQ-2'' 1]),
                              (KStr ''EQ-1'', [example_reading ''EQ-1'' 4])], buffer_size := 2\<rparr>" ShutdownFlush]
      other_buffers_unchanged[OF ne, of "Some (example_reading ''EQ-1'' 5)" "\<lambda>n. True"
        "init\<lparr>data_buffer := [(KStr ''EQ-2'', [example_reading ''EQ-2'' 1]),
                              (KStr ''EQ-1'', [example_reading ''EQ-1'' 4])]\<rparr>" ShutdownFlush]
      rk g
    by simp
qed

section \<open>Properties of the simulator\<close>

lemma is_double_0: "is_double 0"
  by (simp add: is_double_def rnd_0)

lemma is_double_rnd: "is_double (rnd x)"
  by (simp add: is_double_def rnd_idem)

lemma is_double_100: "is_double 100"
proof -
  have "rnd (of_int (2 ^ 52 * 25 div 16) * 2 powi (- 46)) = of_int (2 ^ 52 * 25 div 16) * 2 powi (- 46)"
    by (rule rnd_fixed) simp_all
  then show ?thesis by (simp add: is_double_def)
qed

lemma degrade_nonneg: "0 \<le> degrade rate health"
  by (simp add: degrade_def)

lemma degrade_le:
  assumes "is_double health" "0 \<le> health" "0 \<le> rate"
  shows "degrade rate health \<le> health"
proof -
  have "rnd (health - rate) \<le> rnd health" using assms(3) by (intro rnd_mono) simp
  then show ?thesis using assms(1,2) by (simp add: degrade_def fsub_def is_double_def)
qed

lemma degrade_0:
  assumes "0 \<le> rate"
  shows "degrade rate 0 = 0"
  using rnd_nonpos[of "- rate"] assms by (simp add: degrade_def fsub_def max_def)

lemma is_double_degrade: "is_double (degrade rate health)"
  by (simp add: degrade_def max_def fsub_def is_double_0 is_double_rnd)

lemma health_after_add:
  "health_after (m + n) rate health = health_after n rate (health_after m rate health)"
  by (induction m arbitrary: health) simp_all

lemma health_after_Suc: "health_after (Suc n) rate health = degrade rate (health_after n rate health)"
  using health_after_add[of n 1 rate health] by simp

lemma health_after_nonneg: "0 \<le> health \<Longrightarrow> 0 \<le> health_after n rate health"
  by (induction n arbitrary: health) (simp_all add: degrade_nonneg)

lemma is_double_health_after: "is_double health \<Longrightarrow> is_double (health_after n rate health)"
  by (induction n arbitrary: health) (simp_all add: is_double_degrade)

lemma health_after_le:
  assumes "is_double health" "0 \<le> health" "0 \<le> rate"
  shows "health_after n rate health \<le> health"
  using assms
proof (induction n arbitrary: health)
  case 0
  show ?case by simp
next
  case (Suc n)
  have "health_after n rate (degrade rate health) \<le> degrade rate health"
    by (intro Suc.IH is_double_degrade degrade_nonneg Suc.prems)
  also have "\<dots> \<le> health" using Suc.prems by (rule degrade_le)
  finally show ?case by simp
qed

lemma health_after_0:
  assumes "0 \<le> rate"
  shows "health_after n rate 0 = 0"
  by (induction n) (simp_all add: degrade_0[OF assms])

lemma generate_sensor_reading_state:
  "snd (generate_sensor_reading np t1 t2 d s) =
     s\<lparr>health_score := degrade (degradation_rate s) (health_score s)\<rparr>"
  by (simp add: generate_sensor_reading_def Let_def)

lemma ticks_Cons_state:
  "snd (ticks np (i # is) s) =
     snd (ticks np is (snd (generate_sensor_reading np (now1 i) (now2 i) (random i) s)))"
  by (simp add: case_prod_beta Let_def)

lemma ticks_state:
  "health_score (snd (ticks np is s)) = health_after (length is) (degradation_rate s) (health_score s)
   \<and> degradation_rate (snd (ticks np is s)) = degradation_rate s"
proof (induction "is" arbitrary: s)
  case Nil
  show ?case by simp
next
  case (Cons i "is")
  let ?s1 = "s\<lparr>health_score := degrade (degradation_rate s) (health_score s)\<rparr>"
  have "snd (ticks np (i # is) s) = snd (ticks np is ?s1)"
    by (simp only: ticks_Cons_state generate_sensor_reading_state)
  then show ?case using Cons[of ?s1] by simp
qed

lemma ticks_append:
  "snd (ticks np (is @ js) s) = snd (ticks np js (snd (ticks np is s)))"
proof (induction "is" arbitrary: s)
  case Nil
  show ?case by simp
next
  case (Cons i "is")
  show ?case by (simp only: append_Cons ticks_Cons_state Cons)
qed

lemma uniform_ge:
  assumes "a \<le> b" "0 \<le> u"
  shows "rnd a \<le> uniform a b u"
proof -
  have "0 \<le> fsub b a" using assms(1) by (simp add: fsub_def rnd_nonneg)
  then have "0 \<le> fmul (fsub b a) u" using assms(2) by (simp add: fmul_def rnd_nonneg)
  then show ?thesis by (simp add: uniform_def fadd_def rnd_mono)
qed

lemma rnd_pos: "0 < x \<Longrightarrow> 0 < rnd x"
  using rnd_pos_bounds(1)[of x] pow2_pos[of "flog2 x"] by linarith

lemma constructed_rate_pos:
  assumes "0 \<le> u"
  shows "0 < degradation_rate (sensor_simulator eid kafka u)"
proof -
  have "rnd (1/100) \<le> rnd (1/20)" by (rule rnd_mono) simp
  then have "rnd (rnd (1/100)) \<le> uniform (rnd (1/100)) (rnd (1/20)) u"
    using assms by (rule uniform_ge)
  moreover have "0 < rnd (1/100)" by (rule rnd_pos) simp
  ultimately show ?thesis by (simp add: sensor_simulator_def rnd_idem)
qed

section \<open>The run from health 100 at rate 0.05\<close>

text \<open>
  While the health score stays within one binade, a tick takes a fixed number of units in
  the last place off it; the run is a handful of such stretches, followed by single ticks.
\<close>

lemma round_even_tie:
  assumes "\<bar>q - of_int n\<bar> = 1/2" "even n"
  shows "round_even q = n"
proof (cases "of_int n \<le> q")
  case True
  then have q: "q = of_int n + 1/2" using assms(1) by simp
  then have "\<lfloor>q\<rfloor> = n" by (intro floor_unique) auto
  then show ?thesis using assms(2) by (simp add: round_even_def Let_def q)
next
  case False
  then have q: "q = of_int n - 1/2" using assms(1) by simp
  then have "\<lfloor>q\<rfloor> = n - 1" by (intro floor_unique) auto
  then show ?thesis using assms(2) by (simp add: round_even_def Let_def q)
qed

lemma degrade_grid_even:
  assumes "2 ^ 52 \<le> of_int M - r / 2 powi k" "of_int M - r / 2 powi k < 2 ^ 53"
  shows "degrade r (of_int M * 2 powi k) = of_int (round_even (of_int M - r / 2 powi k)) * 2 powi k"
proof -
  let ?g = "2 powi k :: rat"
  let ?q = "of_int M - r / ?g"
  have g: "0 < ?g" by (rule pow2_pos)
  have eq: "of_int M * ?g - r = ?q * ?g" using g by (simp add: field_simps)
  have q: "\<bar>?q\<bar> = ?q" using assms(1) by simp
  have "rnd (?q * ?g) = of_int (round_even ?q) * ?g"
    by (rule rnd_grid) (use assms q in simp_all)
  moreover have "0 \<le> round_even ?q"
    using round_even_ge[of 0 ?q] assms(1) by simp
  ultimately show ?thesis
    using g by (simp add: degrade_def fsub_def eq)
qed

lemma degrade_grid:
  assumes "2 ^ 52 \<le> of_int M - r / 2 powi k" "of_int M - r / 2 powi k < 2 ^ 53"
    and "\<bar>r / 2 powi k - of_int D\<bar> < 1/2"
  shows "degrade r (of_int M * 2 powi k) = of_int (M - D) * 2 powi k"
proof -
  have "\<bar>(of_int M - r / 2 powi k) - of_int (M - D)\<bar> = \<bar>r / 2 powi k - of_int D\<bar>"
    by (simp add: abs_minus_commute)
  then have "round_even (of_int M - r / 2 powi k) = M - D"
    using assms(3) by (intro round_even_near) simp
  then show ?thesis using degrade_grid_even[OF assms(1,2)] by simp
qed

lemma health_after_grid:
  assumes "\<bar>r / 2 powi k - of_int D\<bar> < 1/2" "0 \<le> D"
    and "2 ^ 52 \<le> of_int (M - int n * D) + of_int D - r / 2 powi k"
    and "of_int M - r / 2 powi k < 2 ^ 53"
  shows "health_after n r (of_int M * 2 powi k) = of_int (M - int n * D) * 2 powi k"
  using assms(3,4)
proof (induction n arbitrary: M)
  case 0
  show ?case by simp
next
  case (Suc n)
  have "(0::rat) \<le> of_int (int n * D)" using assms(2) by simp
  then have lo: "2 ^ 52 \<le> of_int M - r / 2 powi k"
    using Suc.prems(1) by (simp add: algebra_simps)
  have step: "degrade r (of_int M * 2 powi k) = of_int (M - D) * 2 powi k"
    using lo Suc.prems(2) assms(1) by (rule degrade_grid)
  have "health_after n r (of_int (M - D) * 2 powi k) = of_int (M - D - int n * D) * 2 powi k"
  proof (rule Suc.IH)
    show "2 ^ 52 \<le> rat_of_int (M - D - int n * D) + rat_of_int D - r / 2 powi k"
      using Suc.prems(1) by (simp add: algebra_simps)
    have "(0::rat) \<le> of_int D" using assms(2) by simp
    then show "rat_of_int (M - D) - r / 2 powi k < 2 ^ 53"
      using Suc.prems(2) by simp
  qed
  then show ?case by (simp add: step algebra_simps)
qed

lemma degrade_below:
  assumes "health \<le> rate"
  shows "degrade rate health = 0"
  using rnd_nonpos[of "health - rate"] assms by (simp add: degrade_def fsub_def max_def)

lemma scenario_phase_1:
  "health_after 720 (3602879701896397 / 72057594037927936) (100) = 281474976710665 / 4398046511104"
proof -
  have "health_after 720 (3602879701896397 / 72057594037927936) (of_int 7036874417766400 * 2 powi (-46)) =
        of_int (7036874417766400 - int 720 * 3518437208883) * 2 powi (-46)"
    by (rule health_after_grid) simp_all
  then show ?thesis by simp
qed

lemma scenario_phase_2:
  "health_after 640 (3602879701896397 / 72057594037927936) (281474976710665 / 4398046511104) = 140737488355345 / 4398046511104"
proof -
  have "health_after 640 (3602879701896397 / 72057594037927936) (of_int 9007199254741280 * 2 powi (-47)) =
        of_int (9007199254741280 - int 640 * 7036874417766) * 2 powi (-47)"
    by (rule health_after_grid) simp_all
  then show ?thesis by simp
qed

lemma scenario_phase_3:
  "health_after 320 (3602879701896397 / 72057594037927936) (140737488355345 / 4398046511104) = 4398046511105 / 274877906944"
proof -
  have "health_after 320 (3602879701896397 / 72057594037927936) (of_int 9007199254742080 * 2 powi (-48)) =
        of_int (9007199254742080 - int 320 * 14073748835533) * 2 powi (-48)"
    by (rule health_after_grid) simp_all
  then show ?thesis by simp
qed

lemma scenario_phase_4:
  "health_after 160 (3602879701896397 / 72057594037927936) (4398046511105 / 274877906944) = 70368744177695 / 8796093022208"
proof -
  have "health_after 160 (3602879701896397 / 72057594037927936) (of_int 9007199254743040 * 2 powi (-49)) =
        of_int (9007199254743040 - int 160 * 28147497671066) * 2 powi (-49)"
    by (rule health_after_grid) simp_all
  then show ?thesis by simp
qed

lemma scenario_phase_5:
  "health_after 80 (3602879701896397 / 72057594037927936) (70368744177695 / 8796093022208) = 281474976710905 / 70368744177664"
proof -
  have "health_after 80 (3602879701896397 / 72057594037927936) (of_int 9007199254744960 * 2 powi (-50)) =
        of_int (9007199254744960 - int 80 * 56294995342131) * 2 powi (-50)"
    by (rule health_after_grid) simp_all
  then show ?thesis by simp
qed

lemma scenario_phase_6:
  "health_after 40 (3602879701896397 / 72057594037927936) (281474976710905 / 70368744177664) = 281474976711155 / 140737488355328"
proof -
  have "health_after 40 (3602879701896397 / 72057594037927936) (of_int 9007199254748960 * 2 powi (-51)) =
        of_int (9007199254748960 - int 40 * 112589990684262) * 2 powi (-51)"
    by (rule health_after_grid) simp_all
  then show ?thesis by simp
qed

lemma scenario_phase_7:
  "health_after 20 (3602879701896397 / 72057594037927936) (281474976711155 / 140737488355328) = 1125899906846615 / 1125899906842624"
proof -
  have "health_after 20 (3602879701896397 / 72057594037927936) (of_int 9007199254756960 * 2 powi (-52)) =
        of_int (9007199254756960 - int 20 * 225179981368525) * 2 powi (-52)"
    by (rule health_after_grid) simp_all
  then show ?thesis by simp
qed

lemma scenario_phase_8:
  "health_after 10 (3602879701896397 / 72057594037927936) (1125899906846615 / 1125899906842624) = 1125899906850605 / 2251799813685248"
proof -
  have "health_after 10 (3602879701896397 / 72057594037927936) (of_int 9007199254772920 * 2 powi (-53)) =
        of_int (9007199254772920 - int 10 * 450359962737050) * 2 powi (-53)"
    by (rule health_after_grid) simp_all
  then show ?thesis by simp
qed

lemma scenario_phase_9:
  "health_after 5 (3602879701896397 / 72057594037927936) (1125899906850605 / 2251799813685248) = 4503599627434345 / 18014398509481984"
proof -
  have "health_after 5 (3602879701896397 / 72057594037927936) (of_int 9007199254804840 * 2 powi (-54)) =
        of_int (9007199254804840 - int 5 * 900719925474099) * 2 powi (-54)"
    by (rule health_after_grid) simp_all
  then show ?thesis by simp
qed

lemma scenario_phase_10:
  "health_after 1 (3602879701896397 / 72057594037927936) (4503599627434345 / 18014398509481984) = 1801439850980123 / 9007199254740992"
proof -
  have "degrade (3602879701896397 / 72057594037927936) (of_int 9007199254868690 * 2 powi (-55)) =
        of_int (round_even (of_int 9007199254868690 - (3602879701896397 / 72057594037927936) / 2 powi (-55))) * 2 powi (-55)"
    by (rule degrade_grid_even) simp_all
  moreover have "round_even (of_int 9007199254868690 - (3602879701896397 / 72057594037927936) / 2 powi (-55)) = 7205759403920492"
    by (rule round_even_tie) simp_all
  ultimately have "degrade (3602879701896397 / 72057594037927936) (of_int 9007199254868690 * 2 powi (-55)) = of_int 7205759403920492 * 2 powi (-55)"
    by (simp only:)
  then show ?thesis by simp
qed

lemma scenario_phase_11:
  "health_after 1 (3602879701896397 / 72057594037927936) (1801439850980123 / 9007199254740992) = 2702159776486147 / 18014398509481984"
proof -
  have "degrade (3602879701896397 / 72057594037927936) (of_int 7205759403920492 * 2 powi (-55)) =
        of_int (round_even (of_int 7205759403920492 - (3602879701896397 / 72057594037927936) / 2 powi (-55))) * 2 powi (-55)"
    by (rule degrade_grid_even) simp_all
  moreover have "round_even (of_int 7205759403920492 - (3602879701896397 / 72057594037927936) / 2 powi (-55)) = 5404319552972294"
    by (rule round_even_tie) simp_all
  ultimately have "degrade (3602879701896397 / 72057594037927936) (of_int 7205759403920492 * 2 powi (-55)) = of_int 5404319552972294 * 2 powi (-55)"
    by (simp only:)
  then show ?thesis by simp
qed

lemma scenario_phase_12:
  "health_after 1 (3602879701896397 / 72057594037927936) (2702159776486147 / 18014398509481984) = 7205759404048191 / 72057594037927936"
proof -
  have "health_after 1 (3602879701896397 / 72057594037927936) (of_int 10808639105944588 * 2 powi (-56)) =
        of_int (10808639105944588 - int 1 * 3602879701896397) * 2 powi (-56)"
    by (rule health_after_grid) simp_all
  then show ?thesis by simp
qed

lemma scenario_phase_13:
  "health_after 1 (3602879701896397 / 72057594037927936) (7205759404048191 / 72057594037927936) = 1801439851075897 / 36028797018963968"
proof -
  have "health_after 1 (3602879701896397 / 72057594037927936) (of_int 14411518808096382 * 2 powi (-57)) =
        of_int (14411518808096382 - int 1 * 7205759403792794) * 2 powi (-57)"
    by (rule health_after_grid) simp_all
  then show ?thesis by simp
qed

lemma scenario_phase_14:
  "health_after 1 (3602879701896397 / 72057594037927936) (1801439851075897 / 36028797018963968) = 255397 / 72057594037927936"
proof -
  have "health_after 1 (3602879701896397 / 72057594037927936) (of_int 123794003937313408461832192 * 2 powi (-91)) =
        of_int (123794003937313408461832192 - int 1 * 123794003928538034361860096) * 2 powi (-91)"
    by (rule health_after_grid) simp_all
  then show ?thesis by simp
qed

lemma scenario_phase_15:
  "health_after 1 (3602879701896397 / 72057594037927936) (255397 / 72057594037927936) = 0"
  by (simp add: degrade_below)

lemma float_0_05: "rnd (1/20) = 3602879701896397 / 72057594037927936"
proof -
  have "round_even (36028797018963968 / 5) = 7205759403792794"
    by (rule round_even_near) simp
  moreover have "rnd ((36028797018963968 / 5) * 2 powi (- 57)) =
      of_int (round_even (36028797018963968 / 5)) * 2 powi (- 57)"
    by (rule rnd_grid) simp_all
  ultimately show ?thesis by simp
qed

lemma scenario_2000:
  "health_after 2000 (3602879701896397 / 72057594037927936) 100 = 255397 / 72057594037927936"
proof -
  have s1: "health_after 720 (3602879701896397 / 72057594037927936) 100 = 281474976710665 / 4398046511104"
    by (rule scenario_phase_1)
  have s2: "health_after 1360 (3602879701896397 / 72057594037927936) 100 = 140737488355345 / 4398046511104"
    using health_after_add[of 720 640 "3602879701896397 / 72057594037927936" 100] unfolding s1 scenario_phase_2 by simp
  have s3: "health_after 1680 (3602879701896397 / 72057594037927936) 100 = 4398046511105 / 274877906944"
    using health_after_add[of 1360 320 "3602879701896397 / 72057594037927936" 100] unfolding s2 scenario_phase_3 by simp
  have s4: "health_after 1840 (3602879701896397 / 72057594037927936) 100 = 70368744177695 / 8796093022208"
    using health_after_add[of 1680 160 "3602879701896397 / 72057594037927936" 100] unfolding s3 scenario_phase_4 by simp
  have s5: "health_after 1920 (3602879701896397 / 72057594037927936) 100 = 281474976710905 / 70368744177664"
    using health_after_add[of 1840 80 "3602879701896397 / 72057594037927936" 100] unfolding s4 scenario_phase_5 by simp
  have s6: "health_after 1960 (3602879701896397 / 72057594037927936) 100 = 281474976711155 / 140737488355328"
    using health_after_add[of 1920 40 "3602879701896397 / 72057594037927936" 100] unfolding s5 scenario_phase_6 by simp
  have s7: "health_after 1980 (3602879701896397 / 72057594037927936) 100 = 1125899906846615 / 1125899906842624"
    using health_after_add[of 1960 20 "3602879701896397 / 72057594037927936" 100] unfolding s6 scenario_phase_7 by simp
  have s8: "health_after 1990 (3602879701896397 / 72057594037927936) 100 = 1125899906850605 / 2251799813685248"
    using health_after_add[of 1980 10 "3602879701896397 / 72057594037927936" 100] unfolding s7 scenario_phase_8 by simp
  have s9: "health_after 1995 (3602879701896397 / 72057594037927936) 100 = 4503599627434345 / 18014398509481984"
    using health_after_add[of 1990 5 "3602879701896397 / 72057594037927936" 100] unfolding s8 scenario_phase_9 by simp
  have s10: "health_after 1996 (3602879701896397 / 72057594037927936) 100 = 1801439850980123 / 9007199254740992"
    using health_after_add[of 1995 1 "3602879701896397 / 72057594037927936" 100] unfolding s9 scenario_phase_10 by simp
  have s11: "health_after 1997 (3602879701896397 / 72057594037927936) 100 = 2702159776486147 / 18014398509481984"
    using health_after_add[of 1996 1 "3602879701896397 / 72057594037927936" 100] unfolding s10 scenario_phase_11 by simp
  have s12: "health_after 1998 (3602879701896397 / 72057594037927936) 100 = 7205759404048191 / 72057594037927936"
    using health_after_add[of 1997 1 "3602879701896397 / 72057594037927936" 100] unfolding s11 scenario_phase_12 by simp
  have s13: "health_after 1999 (3602879701896397 / 72057594037927936) 100 = 1801439851075897 / 36028797018963968"
    using health_after_add[of 1998 1 "3602879701896397 / 72057594037927936" 100] unfolding s12 scenario_phase_13 by simp
  have s14: "health_after 2000 (3602879701896397 / 72057594037927936) 100 = 255397 / 72057594037927936"
    using health_after_add[of 1999 1 "3602879701896397 / 72057594037927936" 100] unfolding s13 scenario_phase_14 by simp
  show ?thesis by (rule s14)
qed

lemma scenario_2001:
  "health_after 2001 (3602879701896397 / 72057594037927936) 100 = 0"
  using health_after_add[of 2000 1 "3602879701896397 / 72057594037927936" 100] unfolding scenario_2000 scenario_phase_15 by simp

lemma scenario_from_2001:
  "health_after (2001 + n) (3602879701896397 / 72057594037927936) 100 = 0"
  by (simp add: health_after_add scenario_2001 health_after_0)

lemma py_round_small:
  assumes "\<bar>x\<bar> < 1/200"
  shows "py_round x 2 = 0"
proof -
  have "\<bar>x * 100 - of_int 0\<bar> < 1/2" using assms by simp
  then have "round_even (x * 100) = 0" by (rule round_even_near)
  then show ?thesis by (simp add: py_round_def rnd_0)
qed

section \<open>The channels and the anomaly\<close>

lemma fadd_mono: "a \<le> a' \<Longrightarrow> b \<le> b' \<Longrightarrow> fadd a b \<le> fadd a' b'"
  by (simp add: fadd_def rnd_mono add_mono)

lemma fsub_mono: "a \<le> a' \<Longrightarrow> b' \<le> b \<Longrightarrow> fsub a b \<le> fsub a' b'"
  by (simp add: fsub_def rnd_mono diff_mono)

lemma fmul_mono: "0 \<le> c \<Longrightarrow> a \<le> a' \<Longrightarrow> fmul a c \<le> fmul a' c"
  by (simp add: fmul_def rnd_mono mult_right_mono)

lemma fmul_antimono: "c \<le> 0 \<Longrightarrow> a \<le> a' \<Longrightarrow> fmul a' c \<le> fmul a c"
  by (simp add: fmul_def rnd_mono mult_right_mono_neg)

lemma fdiv_mono: "0 \<le> c \<Longrightarrow> a \<le> a' \<Longrightarrow> fdiv a c \<le> fdiv a' c"
  by (simp add: fdiv_def rnd_mono divide_right_mono)

lemma health_factor_antimono: "h1 \<le> h2 \<Longrightarrow> health_factor h2 \<le> health_factor h1"
  by (simp add: health_factor_def fdiv_mono fsub_mono)

lemma health_effect_mono:
  assumes "hf \<le> hf'"
  shows "health_effect Temperature hf \<le> health_effect Temperature hf'"
    and "health_effect Vibration hf \<le> health_effect Vibration hf'"
    and "health_effect NoiseLevel hf \<le> health_effect NoiseLevel hf'"
    and "health_effect Pressure hf' \<le> health_effect Pressure hf"
  using assms by (simp_all add: fmul_mono fmul_antimono)

lemma generate_value_mono:
  "he \<le> he' \<Longrightarrow> generate_value r m he nz u \<le> generate_value r m he' nz u"
  by (simp add: generate_value_def Let_def fadd_mono)

lemma anomaly_probability_mono:
  assumes "hf \<le> hf'"
  shows "anomaly_probability hf \<le> anomaly_probability hf'"
proof -
  have "(0::rat) \<le> rnd (1/10)" by (rule rnd_nonneg) simp
  then show ?thesis using assms by (simp add: anomaly_probability_def fadd_mono fmul_mono)
qed

lemma rnd_int_scaled:
  assumes "\<bar>n\<bar> \<le> 2 ^ 53"
  shows "rnd (of_int n * 2 powi k) = of_int n * 2 powi k"
proof (cases "n = 0 \<or> 2 ^ 52 \<le> \<bar>n\<bar>")
  case True
  then show ?thesis using assms rnd_fixed[of n k] by (auto simp: rnd_0)
next
  case False
  then have n0: "0 < \<bar>n\<bar>" and small: "\<bar>n\<bar> < 2 ^ 52" by auto
  define L where "L = nat (bitlen \<bar>n\<bar>)"
  have L1: "1 \<le> bitlen \<bar>n\<bar>" using n0 bitlen_eq_zero_iff[of "\<bar>n\<bar>"] bitlen_nonneg[of "\<bar>n\<bar>"] by linarith
  from bitlen_bounds[OF n0] have lo: "2 ^ (L - 1) \<le> \<bar>n\<bar>" and hi: "\<bar>n\<bar> < 2 ^ L"
    using L1 by (simp_all add: L_def nat_diff_distrib)
  have Lpos: "1 \<le> L" using L1 by (simp add: L_def)
  have "(2::int) ^ (L - 1) < 2 ^ 52" using lo small by linarith
  have one2: "(1::int) < 2" by simp
  have L52: "L - 1 < 52"
    using one2 \<open>(2::int) ^ (L - 1) < 2 ^ 52\<close> by (rule power_less_imp_less_exp)
  define j where "j = 53 - L"
  define m where "m = n * 2 ^ j"
  have Lj: "L + j = 53" "L - 1 + j = 52" using L52 Lpos by (simp_all add: j_def)
  have am: "\<bar>m\<bar> = \<bar>n\<bar> * 2 ^ j" by (simp add: m_def abs_mult)
  have e1: "(2::int) ^ (L - 1) * 2 ^ j = 2 ^ 52" by (simp only: Lj(2) flip: power_add)
  have e2: "(2::int) ^ L * 2 ^ j = 2 ^ 53" by (simp only: Lj(1) flip: power_add)
  have "2 ^ (L - 1) * 2 ^ j \<le> \<bar>n\<bar> * (2 ^ j :: int)" using lo by (rule mult_right_mono) simp
  then have mlo: "2 ^ 52 \<le> \<bar>m\<bar>" using e1 am by linarith
  have "\<bar>n\<bar> * (2 ^ j :: int) < 2 ^ L * 2 ^ j" using hi by (rule mult_strict_right_mono) simp
  then have mhi: "\<bar>m\<bar> \<le> 2 ^ 53" using e2 am by linarith
  have "(of_int m :: rat) * 2 powi (k - int j) = of_int n * 2 powi k"
    by (simp add: m_def pow2_diff)
  then show ?thesis using rnd_fixed[OF mlo mhi, of "k - int j"] by simp
qed

lemma rnd_int: "\<bar>n\<bar> \<le> 2 ^ 53 \<Longrightarrow> rnd (of_int n) = of_int n"
  using rnd_int_scaled[of n 0] by simp

lemma fadd_half_strict:
  assumes "\<bar>t\<bar> \<le> 2 ^ 51" "1/2 \<le> x"
  shows "t < fadd t x"
proof -
  define m where "m = \<lfloor>2 * t\<rfloor> + 1"
  define y where "y = (of_int m :: rat) * 2 powi (- 1)"
  have y: "y = of_int m / 2" by (simp add: y_def)
  have "2 * t < of_int m" unfolding m_def by linarith
  then have ty: "t < y" by (simp add: y)
  have "of_int m \<le> 2 * t + 1" unfolding m_def by linarith
  then have yx: "y \<le> t + x" using assms(2) by (simp add: y)
  define f where "f = \<lfloor>2 * t\<rfloor>"
  have "- (2 ^ 52) \<le> 2 * t" "2 * t \<le> 2 ^ 52" using assms(1) by (simp_all add: abs_le_iff)
  then have "(of_int (- (2 ^ 52)) :: rat) \<le> 2 * t" "2 * t \<le> (of_int (2 ^ 52) :: rat)" by simp_all
  then have "- (2 ^ 52) \<le> f" "f \<le> 2 ^ 52"
    unfolding f_def
    using le_floor_iff[of "- (2 ^ 52)" "2 * t"] floor_mono[of "2 * t" "of_int (2 ^ 52)"]
    by (simp_all only: floor_of_int)
  then have "\<bar>f + 1\<bar> \<le> 2 ^ 53" by simp
  then have "\<bar>m\<bar> \<le> 2 ^ 53" by (simp only: m_def f_def)
  then have "rnd y = y" unfolding y_def by (rule rnd_int_scaled)
  moreover have "rnd y \<le> rnd (t + x)" using yx by (rule rnd_mono)
  ultimately show ?thesis using ty by (simp add: fadd_def)
qed

lemma fsub_half_strict:
  assumes "\<bar>t\<bar> \<le> 2 ^ 51" "1/2 \<le> x"
  shows "fsub t x < t"
proof -
  have "- t < fadd (- t) x" using assms by (intro fadd_half_strict) simp_all
  moreover have "fadd (- t) x = - fsub t x"
    using rnd_minus[of "t - x"] by (simp add: fadd_def fsub_def)
  ultimately show ?thesis by simp
qed

lemma excursion_bounds:
  assumes "0 \<le> u"
  shows "1/2 \<le> uniform 10 30 u" "1/2 \<le> uniform (1/2) 2 u" "1/2 \<le> uniform 10 20 u"
proof -
  have r10: "rnd 10 = 10" using rnd_int[of 10] by simp
  have "rnd 10 \<le> uniform 10 30 u" using _ assms by (rule uniform_ge) simp
  then show "1/2 \<le> uniform 10 30 u" by (simp add: r10)
  have "rnd 10 \<le> uniform 10 20 u" using _ assms by (rule uniform_ge) simp
  then show "1/2 \<le> uniform 10 20 u" by (simp add: r10)
  have "rnd (of_int 1 * 2 powi (- 1)) = of_int 1 * 2 powi (- 1)" by (rule rnd_int_scaled) simp
  then have "rnd (1/2) = 1/2" by simp
  moreover have "rnd (1/2) \<le> uniform (1/2) 2 u" using _ assms by (rule uniform_ge) simp
  ultimately show "1/2 \<le> uniform (1/2) 2 u" by simp
qed

lemma apply_anomaly_frame: "y \<noteq> x \<Longrightarrow> channel y (apply_anomaly x u c) = channel y c"
  by (cases x; cases y) (simp_all add: channel_def)

lemma apply_anomaly_worsens:
  assumes "0 \<le> u" "\<bar>channel x c\<bar> \<le> 2 ^ 51"
  shows "if x = Pressure then channel x (apply_anomaly x u c) < channel x c
         else channel x c < channel x (apply_anomaly x u c)"
  using assms excursion_bounds[OF assms(1)]
  by (cases x) (simp_all add: channel_def fadd_half_strict fsub_half_strict)

lemma fsub_100_33: "fsub 100 33 = 67"
  using rnd_int[of 67] by (simp add: fsub_def)

lemma fsub_100_33_next: "fsub 100 (33 + 1 / 2 ^ 47) = 67"
proof -
  have "round_even (4714705859903488 - 1/2) = 4714705859903488"
    by (rule round_even_tie) simp_all
  moreover have "rnd ((4714705859903488 - 1/2) * 2 powi (- 46)) =
      of_int (round_even (4714705859903488 - 1/2)) * 2 powi (- 46)"
    by (rule rnd_grid) simp_all
  ultimately show ?thesis by (simp add: fsub_def)
qed

section \<open>The rounding error and the anomaly probability\<close>

lemma round_even_error: "\<bar>of_int (round_even q) - q\<bar> \<le> 1/2"
proof -
  have "of_int \<lfloor>q\<rfloor> \<le> q" "q < of_int \<lfloor>q\<rfloor> + 1" by linarith+
  then show ?thesis by (auto simp: round_even_def Let_def abs_le_iff)
qed

lemma rnd_error: "\<bar>rnd x - x\<bar> \<le> \<bar>x\<bar> / 2 ^ 53"
proof (cases "x = 0")
  case True
  then show ?thesis by (simp add: rnd_0)
next
  case False
  define u :: rat where "u = 2 powi (flog2 x - 52)"
  note s = rnd_scaled[OF False, folded u_def]
  have u: "0 < u" by (rule s(4))
  have "rnd x - x = (of_int (round_even (x / u)) - x / u) * u"
    using u by (simp add: s(3) field_simps)
  then have "\<bar>rnd x - x\<bar> = \<bar>of_int (round_even (x / u)) - x / u\<bar> * u"
    using u by (simp add: abs_mult)
  also have "\<dots> \<le> 1/2 * u"
    using round_even_error[of "x / u"] u by (intro mult_right_mono) simp_all
  finally have a: "\<bar>rnd x - x\<bar> \<le> u / 2" by simp
  have "\<bar>x / u\<bar> = \<bar>x\<bar> / u" using u by (simp only: abs_divide abs_of_pos)
  then have "2 ^ 52 \<le> \<bar>x\<bar> / u" using s(1) by (simp only:)
  then have "2 ^ 52 * u \<le> \<bar>x\<bar>" using u by (simp only: pos_le_divide_eq)
  then have "u / 2 \<le> \<bar>x\<bar> / 2 ^ 53" by simp
  with a show ?thesis by linarith
qed

lemma rnd_error_nonneg:
  assumes "0 \<le> x" "x \<le> b"
  shows "\<bar>rnd x - x\<bar> \<le> b / 2 ^ 53"
proof -
  have "\<bar>x\<bar> / 2 ^ 53 \<le> b / 2 ^ 53" using assms by (simp add: divide_right_mono)
  then show ?thesis using rnd_error[of x] by linarith
qed

lemma float_tenth_bounds: "1/16 \<le> rnd (1/10)" "rnd (1/10) \<le> 1/8"
proof -
  have a: "rnd (of_int 1 * 2 powi (- 4)) = of_int 1 * 2 powi (- 4)" by (rule rnd_int_scaled) simp
  have b: "rnd (of_int 1 * 2 powi (- 3)) = of_int 1 * 2 powi (- 3)" by (rule rnd_int_scaled) simp
  have "rnd (1/16) \<le> rnd (1/10)" by (rule rnd_mono) simp
  then show "1/16 \<le> rnd (1/10)" using a by simp
  have "rnd (1/10) \<le> rnd (1/8)" by (rule rnd_mono) simp
  then show "rnd (1/10) \<le> 1/8" using b by simp
qed

lemma float_hundredth_bounds: "0 \<le> rnd (1/100)" "rnd (1/100) \<le> 1/64"
proof -
  have b: "rnd (of_int 1 * 2 powi (- 6)) = of_int 1 * 2 powi (- 6)" by (rule rnd_int_scaled) simp
  show "0 \<le> rnd (1/100)" by (rule rnd_nonneg) simp
  have "rnd (1/100) \<le> rnd (1/64)" by (rule rnd_mono) simp
  then show "rnd (1/100) \<le> 1/64" using b by simp
qed

lemma anomaly_probability_error:
  assumes "0 \<le> h" "h \<le> 100"
  shows "\<bar>anomaly_probability (health_factor h) -
          (rnd (1/100) + rnd (1/10) * ((100 - h) / 100))\<bar> \<le> 1 / 2 ^ 53"
proof -
  define e :: rat where "e = 1 / 2 ^ 53"
  define c0 where "c0 = rnd (1/10)"
  define p0 where "p0 = rnd (1/100)"
  define a where "a = 100 - h"
  define A where "A = rnd a"
  define B where "B = rnd (A / 100)"
  define C where "C = rnd (B * c0)"
  define P where "P = rnd (p0 + C)"
  have P: "anomaly_probability (health_factor h) = P"
    by (simp add: anomaly_probability_def health_factor_def fadd_def fmul_def fdiv_def fsub_def
          P_def C_def B_def A_def a_def p0_def c0_def)
  have c0: "1/16 \<le> c0" "c0 \<le> 1/8" unfolding c0_def by (rule float_tenth_bounds)+
  have p0: "0 \<le> p0" "p0 \<le> 1/64" unfolding p0_def by (rule float_hundredth_bounds)+
  have a: "0 \<le> a" "a \<le> 100" using assms by (simp_all add: a_def)
  have r100: "rnd 100 = 100" using rnd_int[of 100] by simp
  have r1: "rnd 1 = 1" using rnd_int[of 1] by simp
  have A: "0 \<le> A" "A \<le> 100"
    using rnd_nonneg[OF a(1)] rnd_mono[OF a(2)] by (simp_all add: A_def r100)
  have eA: "\<bar>A - a\<bar> \<le> 100 * e"
    using rnd_error_nonneg[OF a] by (simp add: A_def e_def)
  have A100: "0 \<le> A / 100" "A / 100 \<le> 1" using A by simp_all
  have B: "0 \<le> B" "B \<le> 1"
    using rnd_nonneg[OF A100(1)] rnd_mono[OF A100(2)] by (simp_all add: B_def r1)
  have eB: "\<bar>B - A / 100\<bar> \<le> e"
    using rnd_error_nonneg[OF A100] by (simp add: B_def e_def)
  have Bc: "0 \<le> B * c0" "B * c0 \<le> 1/8"
  proof -
    show "0 \<le> B * c0" using B(1) c0(1) by simp
    have "B * c0 \<le> 1 * c0" using B(2) c0(1) by (intro mult_right_mono) simp_all
    then show "B * c0 \<le> 1/8" using c0(2) by simp
  qed
  have r8: "rnd (1/8) = 1/8" using rnd_int_scaled[of 1 "- 3"] by simp
  have C: "0 \<le> C" "C \<le> 1/8"
    using rnd_nonneg[OF Bc(1)] rnd_mono[OF Bc(2)] by (simp_all add: C_def r8)
  have eC: "\<bar>C - B * c0\<bar> \<le> (1/8) * e"
    using rnd_error_nonneg[OF Bc] by (simp add: C_def e_def)
  have pC: "0 \<le> p0 + C" "p0 + C \<le> 9/64" using p0 C by simp_all
  have eP: "\<bar>P - (p0 + C)\<bar> \<le> (9/64) * e"
    using rnd_error_nonneg[OF pC] by (simp add: P_def e_def)
  have "\<bar>B - a / 100\<bar> \<le> 2 * e" using eA eB by linarith
  then have "c0 * \<bar>B - a / 100\<bar> \<le> (1/8) * (2 * e)"
    using c0 by (intro mult_mono) simp_all
  moreover have "\<bar>B * c0 - c0 * (a / 100)\<bar> = c0 * \<bar>B - a / 100\<bar>"
  proof -
    have "B * c0 - c0 * (a / 100) = c0 * (B - a / 100)" by (simp add: algebra_simps)
    then show ?thesis using c0(1) by (simp add: abs_mult)
  qed
  ultimately have eBc: "\<bar>B * c0 - c0 * (a / 100)\<bar> \<le> (1/4) * e" by simp
  have "\<bar>P - (p0 + c0 * (a / 100))\<bar> \<le> (9/64) * e + (1/8) * e + (1/4) * e"
    using eP eC eBc by linarith
  also have "\<dots> \<le> e" by (simp add: e_def)
  finally show ?thesis by (simp add: P e_def p0_def c0_def a_def)
qed

lemma anomaly_probability_strict:
  assumes "0 \<le> h1" "h1 + 1 / 2 ^ 41 \<le> h2" "h2 \<le> 100"
  shows "anomaly_probability (health_factor h2) < anomaly_probability (health_factor h1)"
proof -
  define c0 where "c0 = rnd (1/10)"
  define p0 where "p0 = rnd (1/100)"
  have c0: "1/16 \<le> c0" unfolding c0_def by (rule float_tenth_bounds)
  have h: "0 \<le> h2" "h1 \<le> 100" using assms by simp_all
  note e1 = anomaly_probability_error[OF assms(1) h(2), folded c0_def p0_def]
  note e2 = anomaly_probability_error[OF h(1) assms(3), folded c0_def p0_def]
  define w where "w = c0 * (h2 - h1)"
  have m1: "(1/16) * (h2 - h1) \<le> w"
    unfolding w_def using c0 assms(2) by (intro mult_right_mono) simp_all
  have m2: "(1::rat) / 2 ^ 41 \<le> h2 - h1" using assms(2) by simp
  have d: "1 / 2 ^ 45 \<le> w" using m1 m2 by simp
  have "c0 * ((100 - h1) / 100) - c0 * ((100 - h2) / 100) = w / 100"
    by (simp add: w_def field_simps)
  moreover have "(2::rat) / 2 ^ 53 < (1 / 2 ^ 45) / 100" by simp
  moreover have "(1 / 2 ^ 45) / 100 \<le> w / 100" using d by (simp add: divide_right_mono)
  ultimately have "2 / 2 ^ 53 < c0 * ((100 - h1) / 100) - c0 * ((100 - h2) / 100)"
    by linarith
  then show ?thesis using e1 e2 by linarith
qed

lemma health_factor_error:
  assumes "0 \<le> h" "h \<le> 100"
  shows "\<bar>health_factor h - (100 - h) / 100\<bar> \<le> 2 / 2 ^ 53"
    and "0 \<le> health_factor h" and "health_factor h \<le> 1"
proof -
  define a where "a = 100 - h"
  define A where "A = rnd a"
  have hf: "health_factor h = rnd (A / 100)"
    by (simp add: health_factor_def fdiv_def fsub_def A_def a_def)
  have a: "0 \<le> a" "a \<le> 100" using assms by (simp_all add: a_def)
  have r100: "rnd 100 = 100" using rnd_int[of 100] by simp
  have r1: "rnd 1 = 1" using rnd_int[of 1] by simp
  have A: "0 \<le> A" "A \<le> 100"
    using rnd_nonneg[OF a(1)] rnd_mono[OF a(2)] by (simp_all add: A_def r100)
  define e :: rat where "e = 1 / 2 ^ 53"
  have eA: "\<bar>A - a\<bar> \<le> 100 * e"
    using rnd_error_nonneg[OF a] by (simp add: A_def e_def)
  have A100: "0 \<le> A / 100" "A / 100 \<le> 1" using A by simp_all
  show "0 \<le> health_factor h" "health_factor h \<le> 1"
    using rnd_nonneg[OF A100(1)] rnd_mono[OF A100(2)] by (simp_all add: hf r1)
  have eB: "\<bar>rnd (A / 100) - A / 100\<bar> \<le> e"
    using rnd_error_nonneg[OF A100] by (simp add: e_def)
  have "\<bar>rnd (A / 100) - a / 100\<bar> \<le> 2 * e" using eA eB by linarith
  then show "\<bar>health_factor h - (100 - h) / 100\<bar> \<le> 2 / 2 ^ 53"
    by (simp add: hf a_def e_def)
qed

lemma health_effect_strict_pos:
  assumes "0 \<le> h1" "h1 + 1 / 2 ^ 41 \<le> h2" "h2 \<le> 100" "0 < c"
  shows "fmul (health_factor h2) c < fmul (health_factor h1) c"
proof -
  define e :: rat where "e = 1 / 2 ^ 53"
  define x1 where "x1 = health_factor h1"
  define x2 where "x2 = health_factor h2"
  have h: "0 \<le> h2" "h1 \<le> 100" using assms by simp_all
  note f1 = health_factor_error[OF assms(1) h(2), folded x1_def]
  note f2 = health_factor_error[OF h(1) assms(3), folded x2_def]
  have "(100 - h1) / 100 - (100 - h2) / 100 = (h2 - h1) / 100" by (simp add: field_simps)
  moreover have "(1 / 2 ^ 41) / 100 \<le> (h2 - h1) / 100"
    using assms(2) by (intro divide_right_mono) simp_all
  moreover have "6 * e < (1 / 2 ^ 41) / 100" by (simp add: e_def)
  ultimately have "6 * e < (100 - h1) / 100 - (100 - h2) / 100" by linarith
  moreover have "\<bar>x1 - (100 - h1) / 100\<bar> \<le> 2 * e" "\<bar>x2 - (100 - h2) / 100\<bar> \<le> 2 * e"
    using f1(1) f2(1) by (simp_all add: e_def)
  ultimately have gap: "0 < x1 - x2 - 2 * e" by linarith
  have b1: "\<bar>rnd (x1 * c) - x1 * c\<bar> \<le> c * e"
  proof -
    have "0 \<le> x1 * c" "x1 * c \<le> c" using f1(2,3) assms(4) by (simp_all add: mult_le_cancel_right1)
    from rnd_error_nonneg[OF this] show ?thesis by (simp add: e_def)
  qed
  have b2: "\<bar>rnd (x2 * c) - x2 * c\<bar> \<le> c * e"
  proof -
    have "0 \<le> x2 * c" "x2 * c \<le> c" using f2(2,3) assms(4) by (simp_all add: mult_le_cancel_right1)
    from rnd_error_nonneg[OF this] show ?thesis by (simp add: e_def)
  qed
  have "0 < c * (x1 - x2 - 2 * e)" using assms(4) gap by (rule mult_pos_pos)
  then have "0 < x1 * c - x2 * c - 2 * (c * e)" by (simp add: algebra_simps)
  then have "rnd (x2 * c) < rnd (x1 * c)" using b1 b2 by linarith
  then show ?thesis by (simp add: fmul_def x1_def x2_def)
qed

lemma health_effect_strict_neg:
  assumes "0 \<le> h1" "h1 + 1 / 2 ^ 41 \<le> h2" "h2 \<le> 100" "c < 0"
  shows "fmul (health_factor h1) c < fmul (health_factor h2) c"
proof -
  have "fmul (health_factor h2) (- c) < fmul (health_factor h1) (- c)"
    using assms by (intro health_effect_strict_pos) simp_all
  moreover have "fmul x (- c) = - fmul x c" for x
    using rnd_minus[of "x * c"] by (simp add: fmul_def)
  ultimately show ?thesis by simp
qed

lemma health_effect_strict:
  assumes "0 \<le> h1" "h1 + 1 / 2 ^ 41 \<le> h2" "h2 \<le> 100"
  shows "health_effect Temperature (health_factor h2) < health_effect Temperature (health_factor h1)"
    and "health_effect Vibration (health_factor h2) < health_effect Vibration (health_factor h1)"
    and "health_effect NoiseLevel (health_factor h2) < health_effect NoiseLevel (health_factor h1)"
    and "health_effect Pressure (health_factor h1) < health_effect Pressure (health_factor h2)"
  using health_effect_strict_pos[OF assms, of 30] health_effect_strict_pos[OF assms, of "3/2"]
    health_effect_strict_pos[OF assms, of 25] health_effect_strict_neg[OF assms, of "- 15"]
  by simp_all

section \<open>One tick, operation by operation\<close>

text \<open>
  The vibration channel of the first tick of the sample simulator, on a weekday and on a
  weekend day: one fact for each rounded operation.
\<close>

lemma vib_op_1: "rnd (1 / 20) = 3602879701896397 / 72057594037927936"
proof -
  have "round_even (36028797018963968 / 5) = 7205759403792794"
    by (rule round_even_near) simp
  moreover have "rnd ((36028797018963968 / 5) * 2 powi (-57)) = of_int (round_even (36028797018963968 / 5)) * 2 powi (-57)"
    by (rule rnd_grid) simp_all
  ultimately show ?thesis by (simp add: )
qed

lemma vib_op_2: "fsub 100 (3602879701896397 / 72057594037927936) = 7033355980557517 / 70368744177664"
proof -
  have "round_even (7202156524090897203 / 1024) = 7033355980557517"
    by (rule round_even_near) simp
  moreover have "rnd ((7202156524090897203 / 1024) * 2 powi (-46)) = of_int (round_even (7202156524090897203 / 1024)) * 2 powi (-46)"
    by (rule rnd_grid) simp_all
  ultimately show ?thesis by (simp add: fsub_def)
qed

lemma vib_op_3: "fsub 100 (7033355980557517 / 70368744177664) = 3518437208883 / 70368744177664"
proof -
  have "round_even (7205759403792384) = 7205759403792384"
    by (rule round_even_near) simp
  moreover have "rnd ((7205759403792384) * 2 powi (-57)) = of_int (round_even (7205759403792384)) * 2 powi (-57)"
    by (rule rnd_grid) simp_all
  ultimately show ?thesis by (simp add: fsub_def)
qed

lemma vib_op_4: "fdiv (3518437208883 / 70368744177664) 100 = 2305843009213563 / 4611686018427387904"
proof -
  have "round_even (115292150460678144 / 25) = 4611686018427126"
    by (rule round_even_near) simp
  moreover have "rnd ((115292150460678144 / 25) * 2 powi (-63)) = of_int (round_even (115292150460678144 / 25)) * 2 powi (-63)"
    by (rule rnd_grid) simp_all
  ultimately show ?thesis by (simp add: fdiv_def)
qed

lemma vib_op_5: "fmul (2305843009213563 / 4611686018427387904) (3 / 2) = 6917529027640689 / 9223372036854775808"
proof -
  have "round_even (6917529027640689) = 6917529027640689"
    by (rule round_even_near) simp
  moreover have "rnd ((6917529027640689) * 2 powi (-63)) = of_int (round_even (6917529027640689)) * 2 powi (-63)"
    by (rule rnd_grid) simp_all
  ultimately show ?thesis by (simp add: fmul_def)
qed

lemma vib_op_6: "rnd (1 / 10) = 3602879701896397 / 36028797018963968"
proof -
  have "round_even (36028797018963968 / 5) = 7205759403792794"
    by (rule round_even_near) simp
  moreover have "rnd ((36028797018963968 / 5) * 2 powi (-56)) = of_int (round_even (36028797018963968 / 5)) * 2 powi (-56)"
    by (rule rnd_grid) simp_all
  ultimately show ?thesis by (simp add: )
qed

lemma vib_op_7: "fsub (1 / 2) (3602879701896397 / 36028797018963968) = 3602879701896397 / 9007199254740992"
proof -
  have "round_even (14411518807585587 / 2) = 7205759403792794"
    by (rule round_even_tie) simp_all
  moreover have "rnd ((14411518807585587 / 2) * 2 powi (-54)) = of_int (round_even (14411518807585587 / 2)) * 2 powi (-54)"
    by (rule rnd_grid) simp_all
  ultimately show ?thesis by (simp add: fsub_def)
qed

lemma vib_op_8: "fmul (3602879701896397 / 9007199254740992) (1 / 2) = 3602879701896397 / 18014398509481984"
proof -
  have "round_even (7205759403792794) = 7205759403792794"
    by (rule round_even_near) simp
  moreover have "rnd ((7205759403792794) * 2 powi (-55)) = of_int (round_even (7205759403792794)) * 2 powi (-55)"
    by (rule rnd_grid) simp_all
  ultimately show ?thesis by (simp add: fmul_def)
qed

lemma vib_op_9: "fadd (3602879701896397 / 36028797018963968) (3602879701896397 / 18014398509481984) = 1351079888211149 / 4503599627370496"
proof -
  have "round_even (10808639105689191 / 2) = 5404319552844596"
    by (rule round_even_tie) simp_all
  moreover have "rnd ((10808639105689191 / 2) * 2 powi (-54)) = of_int (round_even (10808639105689191 / 2)) * 2 powi (-54)"
    by (rule rnd_grid) simp_all
  ultimately show ?thesis by (simp add: fadd_def)
qed

lemma vib_op_10: "fmul (3602879701896397 / 36028797018963968) 1 = 3602879701896397 / 36028797018963968"
proof -
  have "round_even (7205759403792794) = 7205759403792794"
    by (rule round_even_near) simp
  moreover have "rnd ((7205759403792794) * 2 powi (-56)) = of_int (round_even (7205759403792794)) * 2 powi (-56)"
    by (rule rnd_grid) simp_all
  ultimately show ?thesis by (simp add: fmul_def)
qed

lemma vib_op_11: "fadd 1 (3602879701896397 / 36028797018963968) = 2476979795053773 / 2251799813685248"
proof -
  have "round_even (39631676720860365 / 8) = 4953959590107546"
    by (rule round_even_near) simp
  moreover have "rnd ((39631676720860365 / 8) * 2 powi (-52)) = of_int (round_even (39631676720860365 / 8)) * 2 powi (-52)"
    by (rule rnd_grid) simp_all
  ultimately show ?thesis by (simp add: fadd_def)
qed

lemma vib_op_12: "fmul (1351079888211149 / 4503599627370496) (2476979795053773 / 2251799813685248) = 185773484629033 / 562949953421312"
proof -
  have "round_even (3346597584602526385563233115177 / 562949953421312) = 5944751508129056"
    by (rule round_even_near) simp
  moreover have "rnd ((3346597584602526385563233115177 / 562949953421312) * 2 powi (-54)) = of_int (round_even (3346597584602526385563233115177 / 562949953421312)) * 2 powi (-54)"
    by (rule rnd_grid) simp_all
  ultimately show ?thesis by (simp add: fmul_def)
qed

lemma vib_op_13: "fadd (185773484629033 / 562949953421312) (6917529027640689 / 9223372036854775808) = 5958262307011167 / 18014398509481984"
proof -
  have "round_even (3050630301189717361 / 512) = 5958262307011167"
    by (rule round_even_near) simp
  moreover have "rnd ((3050630301189717361 / 512) * 2 powi (-54)) = of_int (round_even (3050630301189717361 / 512)) * 2 powi (-54)"
    by (rule rnd_grid) simp_all
  ultimately show ?thesis by (simp add: fadd_def)
qed

lemma vib_op_14: "fsub (3602879701896397 / 72057594037927936) (- (3602879701896397 / 72057594037927936)) = 3602879701896397 / 36028797018963968"
proof -
  have "round_even (7205759403792794) = 7205759403792794"
    by (rule round_even_near) simp
  moreover have "rnd ((7205759403792794) * 2 powi (-56)) = of_int (round_even (7205759403792794)) * 2 powi (-56)"
    by (rule rnd_grid) simp_all
  ultimately show ?thesis by (simp add: fsub_def)
qed

lemma vib_op_15: "fmul (3602879701896397 / 36028797018963968) (1 / 2) = 3602879701896397 / 72057594037927936"
proof -
  have "round_even (7205759403792794) = 7205759403792794"
    by (rule round_even_near) simp
  moreover have "rnd ((7205759403792794) * 2 powi (-57)) = of_int (round_even (7205759403792794)) * 2 powi (-57)"
    by (rule rnd_grid) simp_all
  ultimately show ?thesis by (simp add: fmul_def)
qed

lemma vib_op_16: "fadd (- (3602879701896397 / 72057594037927936)) (3602879701896397 / 72057594037927936) = 0"
  by (simp add: fadd_def rnd_0)

lemma vib_op_17: "fadd (5958262307011167 / 18014398509481984) 0 = 5958262307011167 / 18014398509481984"
proof -
  have "round_even (5958262307011167) = 5958262307011167"
    by (rule round_even_near) simp
  moreover have "rnd ((5958262307011167) * 2 powi (-54)) = of_int (round_even (5958262307011167)) * 2 powi (-54)"
    by (rule rnd_grid) simp_all
  ultimately show ?thesis by (simp add: fadd_def)
qed

lemma vib_op_18: "py_round (5958262307011167 / 18014398509481984) 3 = 5962765906638537 / 18014398509481984"
proof -
  have "round_even ((5958262307011167 / 18014398509481984) * 10 ^ 3) = 331"
    by (rule round_even_near) simp
  moreover have "round_even (745345738329817088 / 125) = 5962765906638537"
    by (rule round_even_near) simp
  moreover have "rnd ((745345738329817088 / 125) * 2 powi (-54)) = of_int (round_even (745345738329817088 / 125)) * 2 powi (-54)"
    by (rule rnd_grid) simp_all
  ultimately show ?thesis by (simp add: py_round_def)
qed

lemma vib_op_19: "fmul (3602879701896397 / 36028797018963968) (- 1) = - (3602879701896397 / 36028797018963968)"
proof -
  have "round_even (- 7205759403792794) = -7205759403792794"
    by (rule round_even_near) simp
  moreover have "rnd ((- 7205759403792794) * 2 powi (-56)) = of_int (round_even (- 7205759403792794)) * 2 powi (-56)"
    by (rule rnd_grid) simp_all
  ultimately show ?thesis by (simp add: fmul_def)
qed

lemma vib_op_20: "fadd 1 (- (3602879701896397 / 36028797018963968)) = 8106479329266893 / 9007199254740992"
proof -
  have "round_even (32425917317067571 / 4) = 8106479329266893"
    by (rule round_even_near) simp
  moreover have "rnd ((32425917317067571 / 4) * 2 powi (-53)) = of_int (round_even (32425917317067571 / 4)) * 2 powi (-53)"
    by (rule rnd_grid) simp_all
  ultimately show ?thesis by (simp add: fadd_def)
qed

lemma vib_op_21: "fmul (1351079888211149 / 4503599627370496) (8106479329266893 / 9007199254740992) = 4863887597560137 / 18014398509481984"
proof -
  have "round_even (10952501185971903920443359190057 / 2251799813685248) = 4863887597560137"
    by (rule round_even_near) simp
  moreover have "rnd ((10952501185971903920443359190057 / 2251799813685248) * 2 powi (-54)) = of_int (round_even (10952501185971903920443359190057 / 2251799813685248)) * 2 powi (-54)"
    by (rule rnd_grid) simp_all
  ultimately show ?thesis by (simp add: fmul_def)
qed

lemma vib_op_22: "fadd (4863887597560137 / 18014398509481984) (6917529027640689 / 9223372036854775808) = 609674799555281 / 2251799813685248"
proof -
  have "round_even (2497227978978430833 / 512) = 4877398396442248"
    by (rule round_even_near) simp
  moreover have "rnd ((2497227978978430833 / 512) * 2 powi (-54)) = of_int (round_even (2497227978978430833 / 512)) * 2 powi (-54)"
    by (rule rnd_grid) simp_all
  ultimately show ?thesis by (simp add: fadd_def)
qed

lemma vib_op_23: "fadd (609674799555281 / 2251799813685248) 0 = 609674799555281 / 2251799813685248"
proof -
  have "round_even (4877398396442248) = 4877398396442248"
    by (rule round_even_near) simp
  moreover have "rnd ((4877398396442248) * 2 powi (-54)) = of_int (round_even (4877398396442248)) * 2 powi (-54)"
    by (rule rnd_grid) simp_all
  ultimately show ?thesis by (simp add: fadd_def)
qed

lemma vib_op_24: "py_round (609674799555281 / 2251799813685248) 3 = 2440950998034809 / 9007199254740992"
proof -
  have "round_even ((609674799555281 / 2251799813685248) * 10 ^ 3) = 271"
    by (rule round_even_near) simp
  moreover have "round_even (610237749508702208 / 125) = 4881901996069618"
    by (rule round_even_near) simp
  moreover have "rnd ((610237749508702208 / 125) * 2 powi (-54)) = of_int (round_even (610237749508702208 / 125)) * 2 powi (-54)"
    by (rule rnd_grid) simp_all
  ultimately show ?thesis by (simp add: py_round_def)
qed

lemmas vib_ops = vib_op_1 vib_op_2 vib_op_3 vib_op_4 vib_op_5 vib_op_6 vib_op_7 vib_op_8 vib_op_9 vib_op_10 vib_op_11 vib_op_12 vib_op_13 vib_op_14 vib_op_15 vib_op_16 vib_op_17 vib_op_18 vib_op_19 vib_op_20 vib_op_21 vib_op_22 vib_op_23 vib_op_24

lemma vibration_unaffected:
  "vibration (if b then apply_anomaly Temperature u c else c) = vibration c"
  by simp

lemma rd_vibration_eq:
  "rd_vibration (fst (generate_sensor_reading np t1 t2 d s)) =
     py_round (vibration
       (let hf = health_factor (degrade (degradation_rate s) (health_score s));
            c = sample_channels np (s\<lparr>health_score := degrade (degradation_rate s) (health_score s)\<rparr>) t2 hf d
        in if u_anomaly d < anomaly_probability hf
           then apply_anomaly (choice d) (u_excursion d) c else c)) 3"
  by (simp add: generate_sensor_reading_def Let_def)

lemma vibration_friday:
  "rd_vibration (fst (generate_sensor_reading example_numpy friday_night friday_night
      example_draws example_simulator)) = 5962765906638537 / 18014398509481984"
  by (simp add: rd_vibration_eq Let_def example_draws_def vibration_unaffected
        sample_channels_def generate_value_def uniform_def day_factor_def health_factor_def
        degrade_def example_simulator_def sensor_simulator_def friday_night_def vib_ops)

lemma vibration_saturday:
  "rd_vibration (fst (generate_sensor_reading example_numpy friday_night saturday_morning
      example_draws example_simulator)) = 2440950998034809 / 9007199254740992"
  by (simp add: rd_vibration_eq Let_def example_draws_def vibration_unaffected
        sample_channels_def generate_value_def uniform_def day_factor_def health_factor_def
        degrade_def example_simulator_def sensor_simulator_def saturday_morning_def vib_ops)

section \<open>The simulator claims\<close>

text \<open>
  C2. Take a simulator as \<^verbatim>\<open>__init__\<close> builds it, with any value \<open>u \<ge> 0\<close> of \<^verbatim>\<open>random()\<close>
  behind its degradation rate, and run it for any number of ticks, on any clock, random
  draws and numpy. The health score is then between 0 and 100; after any further ticks it
  is no larger than it was; and once it is 0 it is 0 after any further ticks.
\<close>

theorem health_score_bounded_monotone:
  assumes "0 \<le> u"
  shows "let s0 = sensor_simulator eid kafka u;
             s = snd (ticks np is s0);
             s' = snd (ticks np (is @ js) s0)
         in 0 \<le> health_score s \<and> health_score s \<le> 100 \<and>
            health_score s' \<le> health_score s \<and>
            (health_score s = 0 \<longrightarrow> health_score s' = 0)"
proof -
  define s0 where "s0 = sensor_simulator eid kafka u"
  define s where "s = snd (ticks np is s0)"
  define s' where "s' = snd (ticks np (is @ js) s0)"
  have r0: "0 \<le> degradation_rate s0" using constructed_rate_pos[OF assms] by (simp add: s0_def less_imp_le)
  have h0: "health_score s0 = 100" by (simp add: s0_def sensor_simulator_def)
  have hs: "health_score s = health_after (length is) (degradation_rate s0) 100"
    and rs: "degradation_rate s = degradation_rate s0"
    using ticks_state[of np "is" s0] by (simp_all add: s_def h0)
  have s'_eq: "s' = snd (ticks np js s)" by (simp add: s'_def s_def ticks_append)
  have hs': "health_score s' = health_after (length js) (degradation_rate s0) (health_score s)"
    using ticks_state[of np js s] by (simp add: s'_eq rs)
  have d: "is_double (health_score s)" by (simp add: hs is_double_health_after is_double_100)
  have nn: "0 \<le> health_score s" by (simp add: hs health_after_nonneg)
  have le100: "health_score s \<le> 100"
    unfolding hs using is_double_100 _ r0 by (rule health_after_le) simp
  have mono: "health_score s' \<le> health_score s"
    unfolding hs' using d nn r0 by (rule health_after_le)
  have absorb: "health_score s = 0 \<longrightarrow> health_score s' = 0"
    by (simp add: hs' health_after_0[OF r0])
  show ?thesis
    using nn le100 mono absorb by (simp add: s0_def s_def s'_def Let_def)
qed

theorem health_score_bounded_monotone_witness:
  "(0::rat) \<le> 1/2 \<and>
   (let s0 = sensor_simulator ''EQUIP-001'' False (1/2);
        s = snd (ticks example_numpy [example_input] s0);
        s' = snd (ticks example_numpy ([example_input] @ [example_input, example_input]) s0)
    in 0 \<le> health_score s \<and> health_score s \<le> 100 \<and>
       health_score s' \<le> health_score s \<and>
       (health_score s = 0 \<longrightarrow> health_score s' = 0))"
proof -
  have u: "(0::rat) \<le> 1/2" by simp
  show ?thesis
    using u health_score_bounded_monotone[OF u, of "''EQUIP-001''" False example_numpy
        "[example_input]" "[example_input, example_input]"]
    by blast
qed

text \<open>
  C4, as the claim states it, fails: the reading also depends on the wall clock. The same
  state and the same random draws give two different readings at two different instants
  (the time stamps differ).
\<close>

theorem tick_depends_on_clock_counterexample:
  "fst (generate_sensor_reading example_numpy friday_night friday_night example_draws example_simulator)
   \<noteq> fst (generate_sensor_reading example_numpy saturday_morning saturday_morning example_draws example_simulator)"
proof
  assume "fst (generate_sensor_reading example_numpy friday_night friday_night example_draws example_simulator)
     = fst (generate_sensor_reading example_numpy saturday_morning saturday_morning example_draws example_simulator)"
  then have "rd_timestamp (fst (generate_sensor_reading example_numpy friday_night friday_night example_draws example_simulator))
     = rd_timestamp (fst (generate_sensor_reading example_numpy saturday_morning saturday_morning example_draws example_simulator))"
    by (rule arg_cong)
  then show False
    by (simp add: generate_sensor_reading_def Let_def friday_night_def saturday_morning_def)
qed

text \<open>
  C4, amended. The reading, and the health score left behind, are determined by the
  equipment id, the health score, the degradation rate and the four normal ranges of the
  state, together with the random draws, the two values of the clock and numpy: two states
  that agree on these fields give identical readings, whatever their other fields hold.
\<close>

theorem tick_deterministic:
  assumes "equipment_id s = equipment_id s'"
    and "health_score s = health_score s'"
    and "degradation_rate s = degradation_rate s'"
    and "normal_temp_range s = normal_temp_range s'"
    and "normal_vibration_range s = normal_vibration_range s'"
    and "normal_pressure_range s = normal_pressure_range s'"
    and "normal_noise_range s = normal_noise_range s'"
  shows "fst (generate_sensor_reading np t1 t2 d s) = fst (generate_sensor_reading np t1 t2 d s') \<and>
         health_score (snd (generate_sensor_reading np t1 t2 d s)) =
         health_score (snd (generate_sensor_reading np t1 t2 d s'))"
  using assms by (simp add: generate_sensor_reading_def sample_channels_def Let_def)

theorem tick_deterministic_witness:
  "fst (generate_sensor_reading example_numpy friday_night saturday_morning example_draws example_simulator) =
   fst (generate_sensor_reading example_numpy friday_night saturday_morning example_draws
          (example_simulator\<lparr>sim_running := True, has_producer := True, topic := ''other''\<rparr>)) \<and>
   example_simulator \<noteq> example_simulator\<lparr>sim_running := True, has_producer := True, topic := ''other''\<rparr>"
proof -
  have "example_simulator \<noteq> example_simulator\<lparr>sim_running := True, has_producer := True, topic := ''other''\<rparr>"
    by (simp add: example_simulator_def sensor_simulator_def)
  then show ?thesis
    using tick_deterministic[of example_simulator
        "example_simulator\<lparr>sim_running := True, has_producer := True, topic := ''other''\<rparr>"
        example_numpy friday_night saturday_morning example_draws]
    by simp
qed

text \<open>
  C9, as the claim states it, fails: \<^verbatim>\<open>0.05\<close> is not a binary fraction, and after 2000 ticks
  the health score of the simulator started at 100 is \<open>255397 / 2\<^sup>5\<^sup>6\<close>, about
  \<open>3.5 \<times> 10\<^sup>-\<^sup>1\<^sup>2\<close>, not 0.
\<close>

theorem scenario_after_2000_ticks_counterexample:
  "health_score (snd (ticks example_numpy (replicate 2000 example_input) example_simulator))
     = 255397 / 72057594037927936 \<and>
   health_score (snd (ticks example_numpy (replicate 2000 example_input) example_simulator)) \<noteq> 0"
proof -
  have "health_score (snd (ticks example_numpy (replicate 2000 example_input) example_simulator))
     = health_after 2000 (degradation_rate example_simulator) (health_score example_simulator)"
    using ticks_state[of example_numpy "replicate 2000 example_input" example_simulator] by simp
  also have "\<dots> = health_after 2000 (3602879701896397 / 72057594037927936) 100"
    by (simp add: example_simulator_def sensor_simulator_def float_0_05)
  finally show ?thesis by (simp add: scenario_2000)
qed

text \<open>
  C9, amended. For a simulator at health 100 with the float \<^verbatim>\<open>0.05\<close> as its rate: after
  2000 ticks the health score is \<open>255397 / 2\<^sup>5\<^sup>6\<close> (which \<^verbatim>\<open>round(_, 2)\<close> reports as 0);
  the next decrement is the first to go below 0, and after 2001 ticks or more the health
  score is 0.
\<close>

theorem scenario_health_reaches_zero:
  assumes "health_score s = 100" and "degradation_rate s = rnd (1/20)"
  shows "(length is = 2000 \<longrightarrow>
            health_score (snd (ticks np is s)) = 255397 / 72057594037927936 \<and>
            py_round (health_score (snd (ticks np is s))) 2 = 0 \<and>
            fsub (health_score (snd (ticks np is s))) (degradation_rate s) < 0) \<and>
         (2001 \<le> length is \<longrightarrow> health_score (snd (ticks np is s)) = 0)"
proof -
  have h: "health_score (snd (ticks np is s)) =
           health_after (length is) (3602879701896397 / 72057594037927936) 100"
    using ticks_state[of np "is" s] assms by (simp add: float_0_05)
  have a: "health_score (snd (ticks np is s)) = 255397 / 72057594037927936" if "length is = 2000"
    using that by (simp add: h scenario_2000)
  have b: "py_round (health_score (snd (ticks np is s))) 2 = 0" if "length is = 2000"
    using a[OF that] by (intro py_round_small) simp
  have c: "health_score (snd (ticks np is s)) = 0" if "2001 \<le> length is"
  proof -
    from that obtain n where "length is = 2001 + n" using le_Suc_ex by blast
    then show ?thesis by (simp only: h scenario_from_2001)
  qed
  have d: "fsub (health_score (snd (ticks np is s))) (degradation_rate s) < 0" if "length is = 2000"
  proof -
    have "0 < rnd (3602879701896397 / 72057594037927936 - 255397 / 72057594037927936)"
      by (rule rnd_pos) simp
    then have "rnd (- (3602879701896397 / 72057594037927936 - 255397 / 72057594037927936)) < 0"
      by (simp only: rnd_minus neg_less_0_iff_less)
    then show ?thesis by (simp add: a[OF that] assms(2) float_0_05 fsub_def)
  qed
  show ?thesis using a b c d by blast
qed

theorem scenario_health_reaches_zero_witness:
  "health_score example_simulator = 100 \<and> degradation_rate example_simulator = rnd (1/20) \<and>
   py_round (health_score (snd (ticks example_numpy (replicate 2000 example_input) example_simulator))) 2 = 0 \<and>
   health_score (snd (ticks example_numpy (replicate 2001 example_input) example_simulator)) = 0 \<and>
   health_score (snd (ticks example_numpy (replicate 2500 example_input) example_simulator)) = 0"
proof -
  have a: "health_score example_simulator = 100" and b: "degradation_rate example_simulator = rnd (1/20)"
    by (simp_all add: example_simulator_def sensor_simulator_def)
  show ?thesis
    using a b
      scenario_health_reaches_zero[OF a b, of "replicate 2000 example_input" example_numpy]
      scenario_health_reaches_zero[OF a b, of "replicate 2001 example_input" example_numpy]
      scenario_health_reaches_zero[OF a b, of "replicate 2500 example_input" example_numpy]
    by simp
qed

text \<open>
  C7. A channel is sampled as \<^verbatim>\<open>uniform(normal_range) * multiplier + health_effect +
  uniform(-noise, noise)\<close>, each operation rounded: the temperature with the time-of-day
  multiplier, the vibration and the noise level with the day-of-week multiplier, the
  pressure with the multiplier 1. The health effect is the health factor
  \<open>(100 - health) / 100\<close> times 30, 1.5, -15 and 25. For the same draws and the same
  instant, a lower health score gives a temperature, a vibration and a noise level that
  are at least as high, and a pressure that is at most as high. When the two health scores
  lie between 0 and 100 and differ by at least \<open>2\<^sup>-\<^sup>4\<^sup>1\<close>, the health effects of the
  temperature, the vibration and the noise level are strictly larger for the lower score,
  and that of the pressure is strictly smaller.
\<close>

theorem channel_sampling:
  assumes "h1 \<le> h2"
  shows "generate_value (lo, hi) m he nz (u1, u2) =
           fadd (fadd (fmul (uniform lo hi u1) m) he) (uniform (- nz) nz u2) \<and>
         temperature (sample_channels np s t hf d) =
           generate_value (normal_temp_range s) (time_factor np t) (fmul hf 30) 2 (u_temperature d) \<and>
         vibration (sample_channels np s t hf d) =
           generate_value (normal_vibration_range s) (day_factor t) (fmul hf (3/2)) (rnd (1/20))
             (u_vibration d) \<and>
         pressure (sample_channels np s t hf d) =
           generate_value (normal_pressure_range s) 1 (fmul hf (- 15)) 3 (u_pressure d) \<and>
         noise_level (sample_channels np s t hf d) =
           generate_value (normal_noise_range s) (day_factor t) (fmul hf 25) 2 (u_noise_level d) \<and>
         health_factor h1 = fdiv (fsub 100 h1) 100 \<and>
         temperature (sample_channels np s t (health_factor h2) d)
           \<le> temperature (sample_channels np s t (health_factor h1) d) \<and>
         vibration (sample_channels np s t (health_factor h2) d)
           \<le> vibration (sample_channels np s t (health_factor h1) d) \<and>
         noise_level (sample_channels np s t (health_factor h2) d)
           \<le> noise_level (sample_channels np s t (health_factor h1) d) \<and>
         pressure (sample_channels np s t (health_factor h1) d)
           \<le> pressure (sample_channels np s t (health_factor h2) d) \<and>
         (0 \<le> h1 \<and> h1 + 1 / 2 ^ 41 \<le> h2 \<and> h2 \<le> 100 \<longrightarrow>
            fmul (health_factor h2) 30 < fmul (health_factor h1) 30 \<and>
            fmul (health_factor h2) (3/2) < fmul (health_factor h1) (3/2) \<and>
            fmul (health_factor h2) 25 < fmul (health_factor h1) 25 \<and>
            fmul (health_factor h1) (- 15) < fmul (health_factor h2) (- 15))"
proof -
  note hf = health_factor_antimono[OF assms]
  have "fmul (health_factor h2) 30 < fmul (health_factor h1) 30 \<and>
        fmul (health_factor h2) (3/2) < fmul (health_factor h1) (3/2) \<and>
        fmul (health_factor h2) 25 < fmul (health_factor h1) 25 \<and>
        fmul (health_factor h1) (- 15) < fmul (health_factor h2) (- 15)"
    if "0 \<le> h1" "h1 + 1 / 2 ^ 41 \<le> h2" "h2 \<le> 100"
    using health_effect_strict[OF that] by simp
  then show ?thesis
    using health_effect_mono[OF hf]
    by (simp add: generate_value_def[of "(lo, hi)"] sample_channels_def health_factor_def
          generate_value_mono)
qed

theorem channel_sampling_witness:
  "(50::rat) \<le> 100 \<and> (0::rat) \<le> 50 \<and> (50::rat) + 1 / 2 ^ 41 \<le> 100 \<and>
   temperature (sample_channels example_numpy example_simulator friday_night (health_factor 100) example_draws)
     \<le> temperature (sample_channels example_numpy example_simulator friday_night (health_factor 50) example_draws) \<and>
   pressure (sample_channels example_numpy example_simulator friday_night (health_factor 50) example_draws)
     \<le> pressure (sample_channels example_numpy example_simulator friday_night (health_factor 100) example_draws) \<and>
   fmul (health_factor 100) 30 < fmul (health_factor 50) 30 \<and>
   fmul (health_factor 50) (- 15) < fmul (health_factor 100) (- 15)"
proof -
  have h: "(50::rat) \<le> 100" by simp
  have g: "(0::rat) \<le> 50" "(50::rat) + 1 / 2 ^ 41 \<le> 100" by simp_all
  show ?thesis
    using h g channel_sampling[OF h, of 0 0 0 0 0 0 0 example_numpy example_simulator friday_night 0 example_draws]
    by blast
qed

text \<open>
  C8, as the claim states it, fails: the probability is not strictly larger for every lower
  health score. The floats 33 and \<open>33 + 2\<^sup>-\<^sup>4\<^sup>7\<close> are neighbours, and \<^verbatim>\<open>100 - health\<close> is
  67 for both.
\<close>

theorem anomaly_probability_not_strict_counterexample:
  "(33::rat) < 33 + 1 / 2 ^ 47 \<and> is_double 33 \<and> is_double (33 + 1 / 2 ^ 47) \<and>
   anomaly_probability (health_factor 33) = anomaly_probability (health_factor (33 + 1 / 2 ^ 47))"
proof -
  have a: "is_double 33" using rnd_int[of 33] by (simp add: is_double_def)
  have "rnd (of_int 4644337115725825 * 2 powi (- 47)) = of_int 4644337115725825 * 2 powi (- 47)"
    by (rule rnd_int_scaled) simp
  then have b: "is_double (33 + 1 / 2 ^ 47)" by (simp add: is_double_def)
  have "health_factor 33 = health_factor (33 + 1 / 2 ^ 47)"
    by (simp only: health_factor_def fsub_100_33 fsub_100_33_next)
  then show ?thesis using a b by simp
qed

text \<open>
  C8, amended. A lower health score never gives a smaller anomaly probability, and it
  gives a strictly larger one when the two scores lie between 0 and 100 and differ by at
  least \<open>2\<^sup>-\<^sup>4\<^sup>1\<close>. An anomaly changes the one channel that was chosen and no other, and,
  for a random draw \<open>u \<ge> 0\<close> and a channel value of magnitude at most \<open>2\<^sup>5\<^sup>1\<close>, it
  strictly raises the temperature, the vibration or the noise level, and strictly lowers
  the pressure.
\<close>

theorem anomaly_more_likely_and_worsens:
  "(h1 \<le> h2 \<longrightarrow>
      anomaly_probability (health_factor h2) \<le> anomaly_probability (health_factor h1)) \<and>
   (0 \<le> h1 \<and> h1 + 1 / 2 ^ 41 \<le> h2 \<and> h2 \<le> 100 \<longrightarrow>
      anomaly_probability (health_factor h2) < anomaly_probability (health_factor h1)) \<and>
   (y \<noteq> x \<longrightarrow> channel y (apply_anomaly x u c) = channel y c) \<and>
   (0 \<le> u \<and> \<bar>channel x c\<bar> \<le> 2 ^ 51 \<longrightarrow>
      (if x = Pressure then channel x (apply_anomaly x u c) < channel x c
       else channel x c < channel x (apply_anomaly x u c)))"
  using anomaly_probability_mono[OF health_factor_antimono, of h1 h2]
    anomaly_probability_strict[of h1 h2]
    apply_anomaly_frame[of y x u c] apply_anomaly_worsens[of u x c]
  by blast

theorem anomaly_more_likely_and_worsens_witness:
  "(0::rat) \<le> 40 \<and> (40::rat) + 1 / 2 ^ 41 \<le> 90 \<and> (90::rat) \<le> 100 \<and>
   Vibration \<noteq> Pressure \<and> (0::rat) \<le> 1/2 \<and>
   \<bar>channel Pressure \<lparr>temperature = 70, vibration = 1/4, pressure = 100, noise_level = 65\<rparr>\<bar> \<le> 2 ^ 51 \<and>
   anomaly_probability (health_factor 90) < anomaly_probability (health_factor 40) \<and>
   channel Vibration (apply_anomaly Pressure (1/2)
       \<lparr>temperature = 70, vibration = 1/4, pressure = 100, noise_level = 65\<rparr>) = 1/4 \<and>
   channel Pressure (apply_anomaly Pressure (1/2)
       \<lparr>temperature = 70, vibration = 1/4, pressure = 100, noise_level = 65\<rparr>) < 100"
proof -
  let ?c = "\<lparr>temperature = 70, vibration = 1/4, pressure = 100, noise_level = 65\<rparr>"
  have c: "channel Pressure ?c = 100" "channel Vibration ?c = 1/4" by (simp_all add: channel_def)
  show ?thesis
    using anomaly_more_likely_and_worsens[of 40 90 Vibration Pressure "1/2" ?c]
    by (simp add: c)
qed

text \<open>
  C6, as the claim states it, fails in its second half: the multipliers come from a second
  reading of the clock. When midnight between Friday and Saturday falls between the two
  readings, the reading is stamped Friday, yet its vibration is sampled with the weekend
  multiplier (0.271), not the weekday one (0.331).
\<close>

theorem multipliers_not_at_timestamp_counterexample:
  "rd_timestamp (fst (generate_sensor_reading example_numpy friday_night saturday_morning
      example_draws example_simulator)) = isoformat friday_night \<and>
   weekday friday_night < 5 \<and>
   rd_vibration (fst (generate_sensor_reading example_numpy friday_night saturday_morning
      example_draws example_simulator)) = 2440950998034809 / 9007199254740992 \<and>
   rd_vibration (fst (generate_sensor_reading example_numpy friday_night friday_night
      example_draws example_simulator)) = 5962765906638537 / 18014398509481984"
proof -
  have "rd_timestamp (fst (generate_sensor_reading example_numpy friday_night saturday_morning
      example_draws example_simulator)) = isoformat friday_night"
    by (simp add: generate_sensor_reading_def Let_def)
  moreover have "weekday friday_night < 5" by (simp add: friday_night_def)
  ultimately show ?thesis by (simp only: vibration_friday vibration_saturday simp_thms)
qed

text \<open>
  C6, amended. The reading depends on the health score and the degradation rate only
  through the one health score left by the decrement of this tick, which is also the one it
  reports; on the first reading of the clock only through its ISO format, which is the time
  stamp; and on the second reading of the clock through its hour and through whether its
  weekday is before Saturday.
\<close>

theorem one_health_snapshot:
  assumes "degrade (degradation_rate s) (health_score s) =
           degrade (degradation_rate s') (health_score s')"
    and "equipment_id s = equipment_id s'"
    and "normal_temp_range s = normal_temp_range s'"
    and "normal_vibration_range s = normal_vibration_range s'"
    and "normal_pressure_range s = normal_pressure_range s'"
    and "normal_noise_range s = normal_noise_range s'"
    and "isoformat t1 = isoformat t1'"
    and "hour t2 = hour t2'"
    and "(weekday t2 < 5) = (weekday t2' < 5)"
  shows "fst (generate_sensor_reading np t1 t2 d s) = fst (generate_sensor_reading np t1' t2' d s') \<and>
         rd_timestamp (fst (generate_sensor_reading np t1 t2 d s)) = isoformat t1 \<and>
         rd_health_score (fst (generate_sensor_reading np t1 t2 d s)) =
           py_round (health_score (snd (generate_sensor_reading np t1 t2 d s))) 2"
  using assms
  by (simp add: generate_sensor_reading_def sample_channels_def time_factor_def day_factor_def
        Let_def)

theorem one_health_snapshot_witness:
  "fst (generate_sensor_reading example_numpy friday_night saturday_morning example_draws
          (example_simulator\<lparr>health_score := 0\<rparr>)) =
   fst (generate_sensor_reading example_numpy friday_night
          \<lparr>isoformat = ''2024-05-05T00:30:00.000000'', hour = 0, weekday = 6\<rparr> example_draws
          (example_simulator\<lparr>health_score := 0, degradation_rate := 1/4\<rparr>)) \<and>
   degradation_rate (example_simulator\<lparr>health_score := 0\<rparr>) \<noteq> 1/4"
proof -
  let ?s = "example_simulator\<lparr>health_score := 0\<rparr>"
  let ?s' = "example_simulator\<lparr>health_score := 0, degradation_rate := 1/4\<rparr>"
  let ?t = "\<lparr>isoformat = ''2024-05-05T00:30:00.000000'', hour = 0, weekday = 6\<rparr>"
  have r: "degradation_rate ?s = 3602879701896397 / 72057594037927936"
    by (simp add: example_simulator_def vib_op_1)
  have "degrade (degradation_rate ?s) (health_score ?s) = 0"
    unfolding r by (simp add: degrade_0)
  moreover have "degrade (degradation_rate ?s') (health_score ?s') = 0"
    by (simp add: degrade_0)
  ultimately have a: "degrade (degradation_rate ?s) (health_score ?s) =
      degrade (degradation_rate ?s') (health_score ?s')" by simp
  have b: "hour saturday_morning = hour ?t" "(weekday saturday_morning < 5) = (weekday ?t < 5)"
    by (simp_all add: saturday_morning_def)
  show ?thesis
    using one_health_snapshot[OF a _ _ _ _ _ _ b, of friday_night friday_night example_numpy example_draws]
    by (simp add: r)
qed

end
